theory Spec2Isabelle
  imports Main "HOL-Library.Multiset" "HOL-Library.Char_ord" "HOL-Library.List_Lexorder"
begin

section \<open>The map / group-by-key / reduce engine of src/mapreduce.c\<close>

text \<open>
  The engine keeps two process-wide growable buffers of key/value pairs. The map callback
  appends to the intermediate buffer through \<open>mr_emit_i\<close>, the reduce callback appends to
  the final buffer through \<open>mr_emit_f\<close>, and \<open>mr_exec\<close> runs one job: map stage, sort and
  group by key, reduce stage, sort and pack.

  The embedding follows the C text function by function. What the file takes from outside
  is made explicit in the record \<open>env\<close>: the two size constants of \<open>interface.h\<close>, the
  permutation that libc's \<open>qsort\<close> returns, the answers of the allocator at each call site
  and the order in which the scheduler lets the workers of a stage take the buffer lock.
\<close>

subsection \<open>Bytes, character arrays and the libc string functions\<close>

text \<open>
  A stretch of memory is the list of its bytes. A C string stored in it ends right before
  the first NUL byte, and \<open>terminated\<close> says that there is one. \<open>strcmp\<close> is not bounded
  by the array it is pointed at: it reads on through the memory that follows until it meets
  a difference or a NUL. The functions below are therefore applied to all the memory the
  read can reach (see \<open>entry_bytes\<close>), not to one array.
\<close>

abbreviation NUL :: char where
  "NUL \<equiv> CHR 0x00"

definition c_str :: "string \<Rightarrow> string" where
  "c_str m = takeWhile (\<lambda>b. b \<noteq> NUL) m"

definition terminated :: "string \<Rightarrow> bool" where
  "terminated m = (NUL \<in> set m)"

text \<open>
  \<open>strcmp\<close> walks both strings byte by byte and stops at the first difference or at the
  terminator; the bytes are compared as \<open>unsigned char\<close>. Only the sign of the result is
  fixed by the C standard. The last three equations are for a read that reaches the end of
  the memory given: it is ended there as by a NUL.
\<close>

fun strcmp :: "string \<Rightarrow> string \<Rightarrow> int" where
  "strcmp (a # as) (b # bs) =
     (if a = b \<and> a \<noteq> NUL then strcmp as bs else int (of_char a) - int (of_char b))"
| "strcmp [] (b # bs) = - int (of_char b)"
| "strcmp (a # as) [] = int (of_char a)"
| "strcmp [] [] = 0"

text \<open>
  \<open>strncpy dst src n\<close> writes exactly \<open>n\<close> bytes: the bytes of the source string up to
  \<open>n\<close> of them, then NUL bytes up to \<open>n\<close>. It writes no terminator when the source string
  has \<open>n\<close> bytes or more, and it reads at most \<open>n\<close> bytes of the source, so with a field
  as source and the size of the field as \<open>n\<close> it stays inside the field. The model returns
  the \<open>n\<close> bytes written.
\<close>

definition strncpy :: "string \<Rightarrow> nat \<Rightarrow> string" where
  "strncpy src n = (let s = c_str src in take n s @ replicate (n - length s) NUL)"

subsection \<open>Data\<close>

text \<open>
  \<open>kv_pair_t\<close>: one entry of a buffer, two character arrays, \<open>key[MAX_KEY_SIZE]\<close> and
  right after it \<open>value[MAX_VALUE_SIZE]\<close>.
\<close>

record kv_pair_t =
  kv_key :: string
  kv_value :: string

text \<open>
  The memory a \<open>strcmp\<close> on \<open>p->key\<close> can read: the key array and, when that holds no NUL,
  the value array behind it (arrays of \<open>char\<close> leave no gap between them). A key of
  \<open>MAX_KEY_SIZE\<close> bytes or more is stored without a NUL, and \<open>strcmp\<close> then takes the
  stored value for the rest of the key. Only when the value holds no NUL either does the
  read leave the entry, and only if the other string agrees with the entry in every byte;
  what it meets there (the next cell, stale storage, or a copy inside \<open>qsort\<close>) is not
  fixed by the program text, and the model ends the comparison at the end of the entry.
\<close>

definition entry_bytes :: "kv_pair_t \<Rightarrow> string" where
  "entry_bytes p = kv_key p @ kv_value p"

text \<open>
  \<open>struct mr_out_kv\<close> of \<open>interface.h\<close>, as this file uses it: a key array, a pointer
  to \<open>count\<close> value arrays, and the count.
\<close>

record mr_out_kv =
  out_key :: string
  out_value :: "string list"
  out_count :: nat

text \<open>\<open>struct mr_output\<close>: \<open>kv_lst\<close> is a pointer, \<open>None\<close> is the null pointer.\<close>

record mr_output =
  kv_lst :: "mr_out_kv list option"
  lst_count :: nat

text \<open>
  The globals of the file. A buffer is a pointer to storage (the array as a function of the
  index; what lies at or beyond the count is never read before it is written), a count and a
  capacity. Counts, capacities and indices are \<open>size_t\<close> in the C text and natural numbers
  here: a capacity times the size of an entry would have to exceed \<open>SIZE_MAX\<close> for the
  arithmetic to wrap, with a buffer that already fills half of the address space.
\<close>

record engine =
  inter_kvs :: "nat \<Rightarrow> kv_pair_t"
  inter_count :: nat
  inter_cap :: nat
  final_kvs :: "nat \<Rightarrow> kv_pair_t"
  final_count :: nat
  final_cap :: nat

text \<open>
  The environment of a run.
  \<^item> \<open>MAX_KEY_SIZE\<close>, \<open>MAX_VALUE_SIZE\<close>: the constants of \<open>interface.h\<close>.
  \<^item> \<open>qsort\<close>: what libc's \<open>qsort\<close> with comparator \<open>cmp_kv\<close> makes of an array.
  \<^item> \<open>realloc_inter n\<close>, \<open>realloc_final n\<close>: whether \<open>realloc\<close> succeeds if the \<open>n\<close>-th
    call of \<open>mr_emit_i\<close> (\<open>mr_emit_f\<close>) of the run, in the order of lock acquisition, has
    to grow its buffer.
  \<^item> \<open>malloc_groups\<close>, \<open>malloc_group_value g\<close>, \<open>malloc_output\<close>, \<open>malloc_output_value i\<close>:
    whether the \<open>malloc\<close> of the group array, of the value array of group \<open>g\<close>, of the
    output array and of the value of output record \<open>i\<close> succeeds.
  \<^item> \<open>map_sched\<close>, \<open>reduce_sched\<close>: the worker that takes the buffer lock next, for each
    successive emit call of a multi-threaded stage.
\<close>

record env =
  MAX_KEY_SIZE :: nat
  MAX_VALUE_SIZE :: nat
  qsort :: "kv_pair_t list \<Rightarrow> kv_pair_t list"
  realloc_inter :: "nat \<Rightarrow> bool"
  realloc_final :: "nat \<Rightarrow> bool"
  malloc_groups :: bool
  malloc_group_value :: "nat \<Rightarrow> bool"
  malloc_output :: bool
  malloc_output_value :: "nat \<Rightarrow> bool"
  map_sched :: "nat list"
  reduce_sched :: "nat list"

definition INITIAL_CAP :: nat where
  "INITIAL_CAP = 1024"

text \<open>The entries a buffer holds: the first \<open>n\<close> cells of its storage.\<close>

definition live :: "(nat \<Rightarrow> kv_pair_t) \<Rightarrow> nat \<Rightarrow> kv_pair_t list" where
  "live a n = map a [0..<n]"

subsection \<open>\<open>mr_emit_i\<close> and \<open>mr_emit_f\<close>\<close>

text \<open>
  The pair an emit call stores: both fields written by \<open>strncpy\<close> with the full size of
  the field.
\<close>

definition stored :: "env \<Rightarrow> string \<Rightarrow> string \<Rightarrow> kv_pair_t" where
  "stored e k v =
     \<lparr>kv_key = strncpy k (MAX_KEY_SIZE e), kv_value = strncpy v (MAX_VALUE_SIZE e)\<rparr>"

text \<open>
  \<open>mr_emit_i key value\<close>, under the lock of the intermediate buffer. \<open>tmp_ok\<close> is the
  answer of \<open>realloc\<close> should the call reach it (\<open>tmp\<close> not null). The result is the
  returned \<open>int\<close> and the globals after the call.
\<close>

definition mr_emit_i :: "env \<Rightarrow> bool \<Rightarrow> string \<Rightarrow> string \<Rightarrow> engine \<Rightarrow> int \<times> engine" where
  "mr_emit_i e tmp_ok k v s =
     (if inter_count s \<ge> inter_cap s then
        (let newcap = (if inter_cap s \<noteq> 0 then inter_cap s * 2 else INITIAL_CAP) in
         if \<not> tmp_ok then (- 1, s)
         else (0, s\<lparr>inter_cap := newcap,
                    inter_kvs := (inter_kvs s)(inter_count s := stored e k v),
                    inter_count := inter_count s + 1\<rparr>))
      else (0, s\<lparr>inter_kvs := (inter_kvs s)(inter_count s := stored e k v),
                 inter_count := inter_count s + 1\<rparr>))"

definition mr_emit_f :: "env \<Rightarrow> bool \<Rightarrow> string \<Rightarrow> string \<Rightarrow> engine \<Rightarrow> int \<times> engine" where
  "mr_emit_f e tmp_ok k v s =
     (if final_count s \<ge> final_cap s then
        (let newcap = (if final_cap s \<noteq> 0 then final_cap s * 2 else INITIAL_CAP) in
         if \<not> tmp_ok then (- 1, s)
         else (0, s\<lparr>final_cap := newcap,
                    final_kvs := (final_kvs s)(final_count s := stored e k v),
                    final_count := final_count s + 1\<rparr>))
      else (0, s\<lparr>final_kvs := (final_kvs s)(final_count s := stored e k v),
                 final_count := final_count s + 1\<rparr>))"

text \<open>\<open>cmp_kv\<close>, the comparator handed to \<open>qsort\<close>: \<open>strcmp(A->key, B->key)\<close>.\<close>

definition cmp_kv :: "kv_pair_t \<Rightarrow> kv_pair_t \<Rightarrow> int" where
  "cmp_kv A B = strcmp (entry_bytes A) (entry_bytes B)"

text \<open>
  What the C standard promises of \<open>qsort\<close>: the array is permuted and ends up ordered by
  the comparator. The order among entries that compare equal is unspecified.
\<close>

definition qsort_contract :: "(kv_pair_t list \<Rightarrow> kv_pair_t list) \<Rightarrow> bool" where
  "qsort_contract qs =
     (\<forall>xs. mset (qs xs) = mset xs \<and> sorted_wrt (\<lambda>a b. cmp_kv a b \<le> 0) (qs xs))"

text \<open>\<open>qsort(base, n, ...)\<close> works in place on the first \<open>n\<close> cells.\<close>

definition qsort_in_place ::
  "env \<Rightarrow> (nat \<Rightarrow> kv_pair_t) \<Rightarrow> nat \<Rightarrow> (nat \<Rightarrow> kv_pair_t)" where
  "qsort_in_place e a n = (\<lambda>i. if i < n then qsort e (live a n) ! i else a i)"

subsection \<open>Callbacks, workers and the partition of a stage\<close>

text \<open>
  The map and reduce callbacks are the caller's. They return \<open>void\<close>; all they do to the
  engine is call \<open>mr_emit_i\<close> (\<open>mr_emit_f\<close>), so a callback is modelled by the emit calls
  it makes on an item, in order: a list of (key, value) arguments. The callback sees what
  each call returns but has no way to hand it to the engine. \<open>input->kv_lst\<close> with
  \<open>input->count\<close> is the list of the input records.
\<close>

type_synonym emits = "(string \<times> string) list"

text \<open>
  The slices of \<open>mr_exec\<close>'s multi-threaded branches: the loop over \<open>t\<close> that fills
  \<open>tasks[t].start\<close> and \<open>tasks[t].end\<close>, with the running \<open>offset\<close>.
\<close>

function slices :: "nat \<Rightarrow> nat \<Rightarrow> nat \<Rightarrow> nat \<Rightarrow> nat \<Rightarrow> (nat \<times> nat) list" where
  "slices base rem W t offset =
     (if t < W then
        (let chunk_size = base + (if t < rem then 1 else 0) in
         (offset, offset + chunk_size) # slices base rem W (t + 1) (offset + chunk_size))
      else [])"
  by pat_completeness auto
termination
  by (relation "measure (\<lambda>(base, rem, W, t, offset). W - t)") auto

declare slices.simps [simp del]

definition tasks_of :: "nat \<Rightarrow> nat \<Rightarrow> (nat \<times> nat) list" where
  "tasks_of N W = slices (N div W) (N mod W) W 0 0"

text \<open>
  \<open>map_worker\<close> and \<open>reduce_worker\<close>: the callback on every item of the slice, in index
  order. The result is the items the callback was invoked on.
\<close>

definition worker_items :: "'a list \<Rightarrow> nat \<times> nat \<Rightarrow> 'a list" where
  "worker_items items task = map (\<lambda>i. items ! i) [fst task..<snd task]"

text \<open>
  Threads of a stage run side by side; each emit call is atomic under the buffer's lock.
  \<open>run_workers sched qs\<close> is the order in which the emit calls of the workers take the
  lock: \<open>qs ! t\<close> are the calls worker \<open>t\<close> still has to make, and the schedule names the
  worker that goes next. \<open>pthread_join\<close> waits for every worker, so what the schedule
  leaves over is run to the end. One thread is created for every slice, empty ones
  included; \<open>pthread_create\<close>, whose result the C text does not read, is taken to
  succeed.
\<close>

fun run_workers :: "nat list \<Rightarrow> 'a list list \<Rightarrow> 'a list" where
  "run_workers [] qs = concat qs"
| "run_workers (t # sched) qs =
     (if t < length qs then
        (case qs ! t of
           [] \<Rightarrow> run_workers sched qs
         | x # r \<Rightarrow> x # run_workers sched (qs[t := r]))
      else run_workers sched qs)"

text \<open>
  The emit calls of a stage in the order they take the lock, for \<open>count \<le> 1\<close> workers
  (the sequential loop) and for more (one thread per slice).
\<close>

definition stage_calls :: "nat list \<Rightarrow> 'a list \<Rightarrow> ('a \<Rightarrow> emits) \<Rightarrow> nat \<Rightarrow> emits" where
  "stage_calls sched items f worker_count =
     (if worker_count \<le> 1 then concat (map f items)
      else run_workers sched
             (map (\<lambda>task. concat (map f (worker_items items task)))
                  (tasks_of (length items) worker_count)))"

text \<open>The items the callback of a stage is invoked on, worker by worker.\<close>

definition stage_invocations :: "'a list \<Rightarrow> nat \<Rightarrow> 'a list" where
  "stage_invocations items worker_count =
     (if worker_count \<le> 1 then items
      else concat (map (worker_items items) (tasks_of (length items) worker_count)))"

text \<open>
  A sequence of emit calls run against the globals; \<open>n\<close> numbers the calls of the run. The
  values the calls return go to the callbacks and nowhere else: the callbacks and the worker
  functions return nothing to \<open>mr_exec\<close>. They are kept here as a list for reference.
\<close>

fun emit_all_i :: "env \<Rightarrow> nat \<Rightarrow> emits \<Rightarrow> engine \<Rightarrow> int list \<times> engine" where
  "emit_all_i e n [] s = ([], s)"
| "emit_all_i e n ((k, v) # cs) s =
     (let (r, s') = mr_emit_i e (realloc_inter e n) k v s;
          (rs, s'') = emit_all_i e (Suc n) cs s'
      in (r # rs, s''))"

fun emit_all_f :: "env \<Rightarrow> nat \<Rightarrow> emits \<Rightarrow> engine \<Rightarrow> int list \<times> engine" where
  "emit_all_f e n [] s = ([], s)"
| "emit_all_f e n ((k, v) # cs) s =
     (let (r, s') = mr_emit_f e (realloc_final e n) k v s;
          (rs, s'') = emit_all_f e (Suc n) cs s'
      in (r # rs, s''))"

definition map_stage ::
  "env \<Rightarrow> 'i list \<Rightarrow> ('i \<Rightarrow> emits) \<Rightarrow> nat \<Rightarrow> engine \<Rightarrow> int list \<times> engine" where
  "map_stage e input map_fn mapper_count s =
     emit_all_i e 0 (stage_calls (map_sched e) input map_fn mapper_count) s"

definition reduce_stage ::
  "env \<Rightarrow> mr_out_kv list \<Rightarrow> (mr_out_kv \<Rightarrow> emits) \<Rightarrow> nat \<Rightarrow> engine \<Rightarrow> int list \<times> engine" where
  "reduce_stage e groups reduce_fn reducer_count s =
     emit_all_f e 0 (stage_calls (reduce_sched e) groups reduce_fn reducer_count) s"

subsection \<open>The group-by-key stage\<close>

text \<open>
  The inner \<open>while\<close> of the grouping loop: from \<open>j\<close>, skip the entries whose key equals the
  key of entry \<open>i\<close>.
\<close>

function scan :: "kv_pair_t list \<Rightarrow> nat \<Rightarrow> nat \<Rightarrow> nat" where
  "scan xs i j =
     (if j < length xs \<and> strcmp (entry_bytes (xs ! j)) (entry_bytes (xs ! i)) = 0
      then scan xs i (j + 1) else j)"
  by pat_completeness auto
termination
  by (relation "measure (\<lambda>(xs, i, j). length xs - j)") auto

declare scan.simps [simp del]

lemma scan_ge: "j \<le> scan xs i j"
proof (induction xs i j rule: scan.induct)
  case (1 xs i j)
  show ?case
  proof (cases "j < length xs \<and> strcmp (entry_bytes (xs ! j)) (entry_bytes (xs ! i)) = 0")
    case True
    then have "scan xs i j = scan xs i (j + 1)"
      by (subst scan.simps) simp
    moreover have "j + 1 \<le> scan xs i (j + 1)" using 1 True by blast
    ultimately show ?thesis by linarith
  next
    case False
    then have "scan xs i j = j" by (subst scan.simps) auto
    then show ?thesis by simp
  qed
qed

lemma scan_le: "j \<le> length xs \<Longrightarrow> scan xs i j \<le> length xs"
proof (induction xs i j rule: scan.induct)
  case (1 xs i j)
  show ?case
  proof (cases "j < length xs \<and> strcmp (entry_bytes (xs ! j)) (entry_bytes (xs ! i)) = 0")
    case True
    then have "scan xs i j = scan xs i (j + 1)"
      by (subst scan.simps) simp
    moreover have "scan xs i (j + 1) \<le> length xs" using 1 True by simp
    ultimately show ?thesis by linarith
  next
    case False
    then have "scan xs i j = j" by (subst scan.simps) auto
    with 1 show ?thesis by simp
  qed
qed

text \<open>
  The outer loop over the sorted entries \<open>xs\<close>, from index \<open>i\<close> with the groups built so
  far (\<open>gcount\<close> is their number). \<open>None\<close> is the early \<open>return -1\<close> after a failed
  \<open>malloc\<close> of a value array.
\<close>

function build_groups ::
  "env \<Rightarrow> kv_pair_t list \<Rightarrow> nat \<Rightarrow> mr_out_kv list \<Rightarrow> mr_out_kv list option" where
  "build_groups e xs i groups =
     (if i < length xs then
        (let j = scan xs i (i + 1);
             vals = j - i
         in if \<not> malloc_group_value e (length groups) then None
            else build_groups e xs j
                   (groups @
                    [\<lparr>out_key = strncpy (kv_key (xs ! i)) (MAX_KEY_SIZE e),
                      out_value = map (\<lambda>k. strncpy (kv_value (xs ! (i + k))) (MAX_VALUE_SIZE e))
                                      [0..<vals],
                      out_count = vals\<rparr>]))
      else Some groups)"
  by pat_completeness auto
termination
  apply (relation "measure (\<lambda>(e, xs, i, groups). length xs - i)")
   apply simp
  subgoal for e xs i groups x xa
    using scan_ge [of "i + 1" xs i] by simp
  done

declare build_groups.simps [simp del]

text \<open>
  Lines 154 to 190: sort the intermediate buffer in place, allocate the group array, build
  the groups. \<open>None\<close> is \<open>return -1\<close>.
\<close>

definition group_stage :: "env \<Rightarrow> engine \<Rightarrow> engine \<times> mr_out_kv list option" where
  "group_stage e s =
     (let s' = s\<lparr>inter_kvs := qsort_in_place e (inter_kvs s) (inter_count s)\<rparr> in
      if \<not> malloc_groups e then (s', None)
      else (s', build_groups e (live (inter_kvs s') (inter_count s')) 0 []))"

subsection \<open>Packing the output\<close>

text \<open>
  What can go wrong beyond a returned status: the copy loop of the packer writes through
  the pointer \<open>malloc\<close> returned without looking at it.
\<close>

datatype fault = Null_dereference

text \<open>
  The copy loop over the sorted final entries \<open>fs\<close>, from index \<open>i\<close>, with the records
  written so far. Each round allocates the value of record \<open>i\<close> and copies into it at once.
\<close>

function pack_loop ::
  "env \<Rightarrow> kv_pair_t list \<Rightarrow> nat \<Rightarrow> mr_out_kv list \<Rightarrow> fault + mr_out_kv list" where
  "pack_loop e fs i recs =
     (if i < length fs then
        (if \<not> malloc_output_value e i then Inl Null_dereference
         else pack_loop e fs (i + 1)
                (recs @
                 [\<lparr>out_key = strncpy (kv_key (fs ! i)) (MAX_KEY_SIZE e),
                   out_value = [strncpy (kv_value (fs ! i)) (MAX_VALUE_SIZE e)],
                   out_count = 1\<rparr>]))
      else Inr recs)"
  by pat_completeness auto
termination
  by (relation "measure (\<lambda>(e, fs, i, recs). length fs - i)") auto

declare pack_loop.simps [simp del]

text \<open>
  Lines 225 to 242: sort the final buffer in place, allocate the output array, copy. The
  result is the returned status, \<open>*output\<close> and the globals.
\<close>

definition pack_stage ::
  "env \<Rightarrow> mr_output \<Rightarrow> engine \<Rightarrow> fault + (int \<times> mr_output \<times> engine)" where
  "pack_stage e out s =
     (let s' = s\<lparr>final_kvs := qsort_in_place e (final_kvs s) (final_count s)\<rparr> in
      if \<not> malloc_output e then Inr (- 1, out\<lparr>kv_lst := None\<rparr>, s')
      else
        (case pack_loop e (live (final_kvs s') (final_count s')) 0 [] of
           Inl f \<Rightarrow> Inl f
         | Inr recs \<Rightarrow>
             Inr (0, out\<lparr>kv_lst := Some recs, lst_count := final_count s'\<rparr>, s')))"

subsection \<open>\<open>mr_exec\<close>\<close>

text \<open>
  What a run leaves behind: the returned status, \<open>*output\<close> and the globals. Three more
  fields record what happened on the way, for the statements below: the groups handed to
  the reduce stage, the groups the reduce callback was invoked on, and the values the emit
  calls returned to the callbacks (map stage first).
\<close>

record result =
  status :: int
  returned :: mr_output
  globals :: engine
  groups_built :: "mr_out_kv list"
  reduce_invoked :: "mr_out_kv list"
  emit_returns :: "int list"

definition mr_exec ::
  "env \<Rightarrow> 'i list \<Rightarrow> ('i \<Rightarrow> emits) \<Rightarrow> nat \<Rightarrow> (mr_out_kv \<Rightarrow> emits) \<Rightarrow> nat \<Rightarrow>
   mr_output \<Rightarrow> engine \<Rightarrow> fault + result" where
  "mr_exec e input map_fn mapper_count reduce_fn reducer_count out s0 =
     (let s1 = s0\<lparr>inter_count := 0, final_count := 0\<rparr>;
          (rs_i, s2) = map_stage e input map_fn mapper_count s1
      in if inter_count s2 = 0 then
           Inr \<lparr>status = 0, returned = out\<lparr>kv_lst := None, lst_count := 0\<rparr>, globals = s2,
                groups_built = [], reduce_invoked = [], emit_returns = rs_i\<rparr>
         else
           (case group_stage e s2 of
              (s3, None) \<Rightarrow>
                Inr \<lparr>status = - 1, returned = out, globals = s3,
                     groups_built = [], reduce_invoked = [], emit_returns = rs_i\<rparr>
            | (s3, Some groups) \<Rightarrow>
                (let (rs_f, s4) = reduce_stage e groups reduce_fn reducer_count s3 in
                 case pack_stage e out s4 of
                   Inl f \<Rightarrow> Inl f
                 | Inr (rc, out', s5) \<Rightarrow>
                     Inr \<lparr>status = rc, returned = out', globals = s5,
                          groups_built = groups,
                          reduce_invoked = stage_invocations groups reducer_count,
                          emit_returns = rs_i @ rs_f\<rparr>)))"

subsection \<open>A concrete environment\<close>

text \<open>
  For the evaluations below: an insertion sort with \<open>cmp_kv\<close> in the place of \<open>qsort\<close>,
  key and value arrays of 8 bytes, an allocator that never fails, no schedule, and globals
  as they are before the first run.
\<close>

fun insert_kv :: "kv_pair_t \<Rightarrow> kv_pair_t list \<Rightarrow> kv_pair_t list" where
  "insert_kv x [] = [x]"
| "insert_kv x (y # ys) = (if cmp_kv x y \<le> 0 then x # y # ys else y # insert_kv x ys)"

fun isort_kv :: "kv_pair_t list \<Rightarrow> kv_pair_t list" where
  "isort_kv [] = []"
| "isort_kv (x # xs) = insert_kv x (isort_kv xs)"

definition env8 :: env where
  "env8 = \<lparr>MAX_KEY_SIZE = 8, MAX_VALUE_SIZE = 8, qsort = isort_kv,
            realloc_inter = (\<lambda>n. True), realloc_final = (\<lambda>n. True),
            malloc_groups = True, malloc_group_value = (\<lambda>g. True),
            malloc_output = True, malloc_output_value = (\<lambda>i. True),
            map_sched = [], reduce_sched = []\<rparr>"

definition fresh :: engine where
  "fresh = \<lparr>inter_kvs = (\<lambda>i. \<lparr>kv_key = [], kv_value = []\<rparr>), inter_count = 0, inter_cap = 0,
             final_kvs = (\<lambda>i. \<lparr>kv_key = [], kv_value = []\<rparr>), final_count = 0, final_cap = 0\<rparr>"

definition no_output :: mr_output where
  "no_output = \<lparr>kv_lst = None, lst_count = 0\<rparr>"

subsection \<open>Vocabulary of the statements\<close>

text \<open>
  Strings are compared as lists of bytes: with the orders of \<open>Char_ord\<close> and
  \<open>List_Lexorder\<close>, \<open>xs < ys\<close> on strings is the lexicographic order over the unsigned
  value of the bytes.
\<close>

text \<open>
  The key of an entry: the string in its key array. And the string \<open>strcmp\<close> reads at the
  key of an entry; the two are the same when the key array holds a NUL.
\<close>

definition key_of :: "kv_pair_t \<Rightarrow> string" where
  "key_of p = c_str (kv_key p)"

definition read_key :: "kv_pair_t \<Rightarrow> string" where
  "read_key p = c_str (entry_bytes p)"

text \<open>The pairs of the calls that returned \<open>0\<close>.\<close>

definition kept :: "env \<Rightarrow> emits \<Rightarrow> int list \<Rightarrow> kv_pair_t list" where
  "kept e cs rs = map (\<lambda>((k, v), r). stored e k v) (filter (\<lambda>(c, r). r = 0) (zip cs rs))"

text \<open>
  The maximal runs of consecutive entries at which \<open>strcmp\<close> reads the same string, and the
  group the loop makes of a run: the key array of its first entry, the values of its
  entries in order.
\<close>

function runs :: "kv_pair_t list \<Rightarrow> kv_pair_t list list" where
  "runs [] = []"
| "runs (x # xs) =
     (x # takeWhile (\<lambda>p. read_key p = read_key x) xs) #
     runs (dropWhile (\<lambda>p. read_key p = read_key x) xs)"
  by pat_completeness auto
termination
  by (relation "measure length") (auto simp add: length_dropWhile_le less_Suc_eq_le)

definition to_group :: "env \<Rightarrow> kv_pair_t list \<Rightarrow> mr_out_kv" where
  "to_group e r =
     \<lparr>out_key = strncpy (kv_key (hd r)) (MAX_KEY_SIZE e),
      out_value = map (\<lambda>p. strncpy (kv_value p) (MAX_VALUE_SIZE e)) r,
      out_count = length r\<rparr>"

text \<open>The output record the copy loop makes of a final-buffer entry.\<close>

definition to_record :: "env \<Rightarrow> kv_pair_t \<Rightarrow> mr_out_kv" where
  "to_record e p =
     \<lparr>out_key = strncpy (kv_key p) (MAX_KEY_SIZE e),
      out_value = [strncpy (kv_value p) (MAX_VALUE_SIZE e)],
      out_count = 1\<rparr>"

section \<open>Properties\<close>

subsection \<open>Bounded strings\<close>

lemma c_str_no_NUL: "NUL \<notin> set (c_str m)"
  by (auto simp add: c_str_def dest: set_takeWhileD)

lemma c_str_length: "length (c_str m) \<le> length m"
  by (simp add: c_str_def length_takeWhile_le)

lemma c_str_strncpy: "c_str (strncpy m n) = take n (c_str m)"
proof -
  have "\<forall>b\<in>set (take n (c_str m)). b \<noteq> NUL"
    using c_str_no_NUL [of m] by (auto dest: in_set_takeD)
  then have "takeWhile (\<lambda>b. b \<noteq> NUL) (take n (c_str m) @ replicate (n - length (c_str m)) NUL)
      = take n (c_str m) @ takeWhile (\<lambda>b. b \<noteq> NUL) (replicate (n - length (c_str m)) NUL)"
    by (intro takeWhile_append2) auto
  then show ?thesis
    by (simp add: strncpy_def Let_def c_str_def [of "take n (c_str m) @ _"] takeWhile_replicate)
qed

lemma strncpy_length: "length (strncpy m n) = n"
  by (simp add: strncpy_def Let_def)

lemma strncpy_terminated: "length (c_str m) < n \<Longrightarrow> terminated (strncpy m n)"
  by (simp add: strncpy_def Let_def terminated_def)

lemma strncpy_unterminated: "n \<le> length (c_str m) \<Longrightarrow> \<not> terminated (strncpy m n)"
  using c_str_no_NUL [of m] by (auto simp add: strncpy_def Let_def terminated_def dest: in_set_takeD)

text \<open>
  Claim C4. \<open>strncpy\<close> is given the full size of the field and nothing writes a terminator
  afterwards, so the stored key is NUL-terminated exactly when the key passed in is shorter
  than \<open>MAX_KEY_SIZE\<close>, and likewise the value. With a key field of 8 bytes, the key
  \<open>averylongkey\<close> is stored by both emit functions as the 8 bytes \<open>averylon\<close> with no
  terminator. The claim asks for the first 7 bytes and a NUL.
\<close>

theorem emit_long_key_unterminated:
  "terminated (kv_key (stored e k v)) = (length (c_str k) < MAX_KEY_SIZE e) \<and>
   terminated (kv_value (stored e k v)) = (length (c_str v) < MAX_VALUE_SIZE e) \<and>
   kv_key (stored env8 ''averylongkey'' ''1'') = ''averylon'' \<and>
   \<not> terminated (kv_key (stored env8 ''averylongkey'' ''1'')) \<and>
   (\<exists>s'. mr_emit_i env8 True ''averylongkey'' ''1'' fresh = (0, s') \<and>
      kv_key (inter_kvs s' 0) = ''averylon'') \<and>
   (\<exists>s'. mr_emit_f env8 True ''averylongkey'' ''1'' fresh = (0, s') \<and>
      kv_key (final_kvs s' 0) = ''averylon'')"
proof -
  have "terminated (strncpy m n) = (length (c_str m) < n)" for m n
    using strncpy_terminated [of m n] strncpy_unterminated [of n m] by (cases "length (c_str m) < n") auto
  then have "terminated (kv_key (stored e k v)) = (length (c_str k) < MAX_KEY_SIZE e)"
    and "terminated (kv_value (stored e k v)) = (length (c_str v) < MAX_VALUE_SIZE e)"
    by (simp_all add: stored_def)
  moreover have "kv_key (stored env8 ''averylongkey'' ''1'') = ''averylon''"
    and "\<not> terminated (kv_key (stored env8 ''averylongkey'' ''1''))"
    by (simp_all add: stored_def strncpy_def c_str_def terminated_def env8_def)
  moreover have "\<exists>s'. mr_emit_i env8 True ''averylongkey'' ''1'' fresh = (0, s') \<and>
      kv_key (inter_kvs s' 0) = ''averylon''"
    by (simp add: stored_def strncpy_def c_str_def env8_def mr_emit_i_def fresh_def Let_def)
  moreover have "\<exists>s'. mr_emit_f env8 True ''averylongkey'' ''1'' fresh = (0, s') \<and>
      kv_key (final_kvs s' 0) = ''averylon''"
    by (simp add: stored_def strncpy_def c_str_def env8_def mr_emit_f_def fresh_def Let_def)
  ultimately show ?thesis by blast
qed

subsection \<open>The emit calls\<close>

lemma live_snoc: "live (a(n := p)) (Suc n) = live a n @ [p]"
  by (simp add: live_def)

lemma live_zero [simp]: "live a 0 = []"
  by (simp add: live_def)

lemma live_length [simp]: "length (live a n) = n"
  by (simp add: live_def)

lemma live_nth: "i < n \<Longrightarrow> live a n ! i = a i"
  by (simp add: live_def)

text \<open>
  Claim C5. A call of \<open>mr_emit_i\<close> or \<open>mr_emit_f\<close> on a buffer that is at capacity and
  whose growth allocation fails returns \<open>-1\<close> and leaves all globals as they were: count,
  capacity and every stored entry. Every other call returns \<open>0\<close>, raises the count by one
  and writes one entry into the cell right after the entries held before, changing no other
  cell. The entry written is spelled out byte by byte: its key field holds the first
  \<open>MAX_KEY_SIZE\<close> bytes of the key passed in (the bytes before its first NUL), padded with
  NUL up to \<open>MAX_KEY_SIZE\<close> bytes when the key is shorter, and its value field likewise
  with \<open>MAX_VALUE_SIZE\<close>. The capacity doubles (or becomes 1024, from zero) exactly when
  the buffer was at capacity, and the other buffer is untouched.
\<close>

theorem emit_fails_unchanged_or_appends:
  "(inter_cap s \<le> inter_count s \<and> \<not> ok \<longrightarrow> mr_emit_i e ok k v s = (- 1, s)) \<and>
   (\<not> (inter_cap s \<le> inter_count s \<and> \<not> ok) \<longrightarrow>
      (\<exists>s'. mr_emit_i e ok k v s = (0, s') \<and>
            inter_count s' = inter_count s + 1 \<and>
            inter_kvs s' (inter_count s) =
              \<lparr>kv_key = take (MAX_KEY_SIZE e) (takeWhile (\<lambda>b. b \<noteq> NUL) k) @
                  replicate (MAX_KEY_SIZE e - length (takeWhile (\<lambda>b. b \<noteq> NUL) k)) NUL,
               kv_value = take (MAX_VALUE_SIZE e) (takeWhile (\<lambda>b. b \<noteq> NUL) v) @
                  replicate (MAX_VALUE_SIZE e - length (takeWhile (\<lambda>b. b \<noteq> NUL) v)) NUL\<rparr> \<and>
            (\<forall>i. i \<noteq> inter_count s \<longrightarrow> inter_kvs s' i = inter_kvs s i) \<and>
            live (inter_kvs s') (inter_count s') =
              live (inter_kvs s) (inter_count s) @ [inter_kvs s' (inter_count s)] \<and>
            inter_cap s' =
              (if inter_cap s \<le> inter_count s
               then (if inter_cap s \<noteq> 0 then inter_cap s * 2 else 1024)
               else inter_cap s) \<and>
            final_kvs s' = final_kvs s \<and> final_count s' = final_count s \<and>
            final_cap s' = final_cap s)) \<and>
   (final_cap s \<le> final_count s \<and> \<not> ok \<longrightarrow> mr_emit_f e ok k v s = (- 1, s)) \<and>
   (\<not> (final_cap s \<le> final_count s \<and> \<not> ok) \<longrightarrow>
      (\<exists>s'. mr_emit_f e ok k v s = (0, s') \<and>
            final_count s' = final_count s + 1 \<and>
            final_kvs s' (final_count s) =
              \<lparr>kv_key = take (MAX_KEY_SIZE e) (takeWhile (\<lambda>b. b \<noteq> NUL) k) @
                  replicate (MAX_KEY_SIZE e - length (takeWhile (\<lambda>b. b \<noteq> NUL) k)) NUL,
               kv_value = take (MAX_VALUE_SIZE e) (takeWhile (\<lambda>b. b \<noteq> NUL) v) @
                  replicate (MAX_VALUE_SIZE e - length (takeWhile (\<lambda>b. b \<noteq> NUL) v)) NUL\<rparr> \<and>
            (\<forall>i. i \<noteq> final_count s \<longrightarrow> final_kvs s' i = final_kvs s i) \<and>
            live (final_kvs s') (final_count s') =
              live (final_kvs s) (final_count s) @ [final_kvs s' (final_count s)] \<and>
            final_cap s' =
              (if final_cap s \<le> final_count s
               then (if final_cap s \<noteq> 0 then final_cap s * 2 else 1024)
               else final_cap s) \<and>
            inter_kvs s' = inter_kvs s \<and> inter_count s' = inter_count s \<and>
            inter_cap s' = inter_cap s))"
  by (simp add: mr_emit_i_def mr_emit_f_def Let_def live_snoc stored_def strncpy_def c_str_def
      INITIAL_CAP_def)

theorem emit_fails_unchanged_or_appends_witness:
  "mr_emit_i env8 False ''k'' ''v'' fresh = (- 1, fresh) \<and>
   mr_emit_f env8 False ''k'' ''v'' fresh = (- 1, fresh) \<and>
   (\<exists>s1 s2.
      mr_emit_i env8 True ''k'' ''v'' fresh = (0, s1) \<and>
      inter_count s1 = 1 \<and> inter_cap s1 = 1024 \<and>
      inter_kvs s1 0 = \<lparr>kv_key = ''k'' @ replicate 7 NUL, kv_value = ''v'' @ replicate 7 NUL\<rparr> \<and>
      mr_emit_i env8 False ''averylongkey'' ''w'' s1 = (0, s2) \<and>
      inter_count s2 = 2 \<and> inter_cap s2 = 1024 \<and>
      inter_kvs s2 0 = \<lparr>kv_key = ''k'' @ replicate 7 NUL, kv_value = ''v'' @ replicate 7 NUL\<rparr> \<and>
      inter_kvs s2 1 = \<lparr>kv_key = ''averylon'', kv_value = ''w'' @ replicate 7 NUL\<rparr>) \<and>
   (\<exists>s1 s2.
      mr_emit_f env8 True ''k'' ''v'' fresh = (0, s1) \<and>
      final_count s1 = 1 \<and> final_cap s1 = 1024 \<and>
      final_kvs s1 0 = \<lparr>kv_key = ''k'' @ replicate 7 NUL, kv_value = ''v'' @ replicate 7 NUL\<rparr> \<and>
      mr_emit_f env8 False ''averylongkey'' ''w'' s1 = (0, s2) \<and>
      final_count s2 = 2 \<and> final_cap s2 = 1024 \<and>
      final_kvs s2 0 = \<lparr>kv_key = ''k'' @ replicate 7 NUL, kv_value = ''v'' @ replicate 7 NUL\<rparr> \<and>
      final_kvs s2 1 = \<lparr>kv_key = ''averylon'', kv_value = ''w'' @ replicate 7 NUL\<rparr>)"
proof -
  have cap: "inter_cap fresh = 0" "inter_count fresh = 0" "final_cap fresh = 0"
    "final_count fresh = 0" "MAX_KEY_SIZE env8 = 8" "MAX_VALUE_SIZE env8 = 8"
    by (simp_all add: fresh_def env8_def)
  note f = emit_fails_unchanged_or_appends [of fresh False env8 "''k''" "''v''"]
  have fi: "mr_emit_i env8 False ''k'' ''v'' fresh = (- 1, fresh)"
    and ff: "mr_emit_f env8 False ''k'' ''v'' fresh = (- 1, fresh)"
    using f cap by simp_all
  note t = emit_fails_unchanged_or_appends [of fresh True env8 "''k''" "''v''"]
  obtain s1 where i1: "mr_emit_i env8 True ''k'' ''v'' fresh = (0, s1)"
    and c1: "inter_count s1 = 1" "inter_cap s1 = 1024"
    and k1: "inter_kvs s1 0 =
      \<lparr>kv_key = ''k'' @ replicate 7 NUL, kv_value = ''v'' @ replicate 7 NUL\<rparr>"
    using t cap by auto
  note u = emit_fails_unchanged_or_appends [of s1 False env8 "''averylongkey''" "''w''"]
  obtain s2 where i2: "mr_emit_i env8 False ''averylongkey'' ''w'' s1 = (0, s2)"
    and c2: "inter_count s2 = 2" "inter_cap s2 = 1024"
    and k2: "inter_kvs s2 1 = \<lparr>kv_key = ''averylon'', kv_value = ''w'' @ replicate 7 NUL\<rparr>"
    and o2: "inter_kvs s2 0 = inter_kvs s1 0"
    using u c1 cap by auto
  obtain p1 where j1: "mr_emit_f env8 True ''k'' ''v'' fresh = (0, p1)"
    and d1: "final_count p1 = 1" "final_cap p1 = 1024"
    and l1: "final_kvs p1 0 =
      \<lparr>kv_key = ''k'' @ replicate 7 NUL, kv_value = ''v'' @ replicate 7 NUL\<rparr>"
    using t cap by auto
  note w = emit_fails_unchanged_or_appends [of p1 False env8 "''averylongkey''" "''w''"]
  obtain p2 where j2: "mr_emit_f env8 False ''averylongkey'' ''w'' p1 = (0, p2)"
    and d2: "final_count p2 = 2" "final_cap p2 = 1024"
    and l2: "final_kvs p2 1 = \<lparr>kv_key = ''averylon'', kv_value = ''w'' @ replicate 7 NUL\<rparr>"
    and r2: "final_kvs p2 0 = final_kvs p1 0"
    using w d1 cap by auto
  show ?thesis
    using fi ff i1 c1 k1 i2 c2 k2 o2 j1 d1 l1 j2 d2 l2 r2 by auto
qed

subsection \<open>The partition of a stage\<close>

lemma slices_length: "length (slices b r W t off) = W - t"
proof (induction b r W t off rule: slices.induct)
  case (1 b r W t off)
  show ?case
  proof (cases "t < W")
    case True
    with 1 show ?thesis by (subst slices.simps) (simp add: Let_def)
  next
    case False
    then show ?thesis by (subst slices.simps) simp
  qed
qed

lemma slices_nth:
  "i < W - t \<Longrightarrow>
   slices b r W t off ! i =
     (off + i * b + (min (t + i) r - min t r),
      off + Suc i * b + (min (Suc (t + i)) r - min t r))"
proof (induction i arbitrary: t off)
  case 0
  then have "t < W" by simp
  then show ?case by (subst slices.simps) (auto simp add: Let_def min_def)
next
  case (Suc i)
  then have tW: "t < W" and i: "i < W - (t + 1)" by simp_all
  let ?c = "b + (if t < r then 1 else 0)"
  have "slices b r W t off ! Suc i = slices b r W (t + 1) (off + ?c) ! i"
    using tW by (subst slices.simps) (simp add: Let_def)
  also have "\<dots> = (off + ?c + i * b + (min (t + 1 + i) r - min (t + 1) r),
      off + ?c + Suc i * b + (min (Suc (t + 1 + i)) r - min (t + 1) r))"
    by (rule Suc.IH [OF i])
  also have "\<dots> = (off + Suc i * b + (min (t + Suc i) r - min t r),
      off + Suc (Suc i) * b + (min (Suc (t + Suc i)) r - min t r))"
  proof -
    have m1: "(if t < r then 1 else 0) + (min (t + 1 + i) r - min (t + 1) r) =
        min (t + Suc i) r - min t r"
      by (auto simp add: min_def)
    have m2: "(if t < r then 1 else 0) + (min (Suc (t + 1 + i)) r - min (t + 1) r) =
        min (Suc (t + Suc i)) r - min t r"
      by (auto simp add: min_def)
    have "off + ?c + i * b + (min (t + 1 + i) r - min (t + 1) r) =
        off + Suc i * b + ((if t < r then 1 else 0) + (min (t + 1 + i) r - min (t + 1) r))"
      by simp
    moreover have "off + ?c + Suc i * b + (min (Suc (t + 1 + i)) r - min (t + 1) r) =
        off + Suc (Suc i) * b +
          ((if t < r then 1 else 0) + (min (Suc (t + 1 + i)) r - min (t + 1) r))"
      by simp
    ultimately show ?thesis by (simp only: m1 m2)
  qed
  finally show ?case .
qed

lemma tasks_of_length: "length (tasks_of N W) = W"
  by (simp add: tasks_of_def slices_length)

lemma tasks_of_nth:
  "t < W \<Longrightarrow>
   tasks_of N W ! t =
     (t * (N div W) + min t (N mod W), Suc t * (N div W) + min (Suc t) (N mod W))"
  by (simp add: tasks_of_def slices_nth)

lemma upt_join: "a \<le> b \<Longrightarrow> b \<le> c \<Longrightarrow> [a..<b] @ [b..<c] = [a..<(c::nat)]"
  by (metis le_add_diff_inverse upt_add_eq_append)

lemma slices_cover:
  "t \<le> W \<Longrightarrow>
   concat (map (\<lambda>(a, b). [a..<b]) (slices b r W t off)) =
     [off..<off + (W - t) * b + (min W r - min t r)]"
proof (induction b r W t off rule: slices.induct)
  case (1 b r W t off)
  show ?case
  proof (cases "t < W")
    case True
    let ?c = "b + (if t < r then 1 else 0)"
    have ih: "concat (map (\<lambda>(a, b). [a..<b]) (slices b r W (t + 1) (off + ?c))) =
      [off + ?c..<off + ?c + (W - (t + 1)) * b + (min W r - min (t + 1) r)]"
      using 1 True by simp
    have e: "off + ?c + (W - (t + 1)) * b + (min W r - min (t + 1) r) =
      off + (W - t) * b + (min W r - min t r)"
    proof -
      have w: "(W - t) * b = b + (W - (t + 1)) * b"
        using True by (metis Suc_diff_Suc Suc_eq_plus1 mult_Suc)
      have m: "(if t < r then 1 else 0) + (min W r - min (t + 1) r) = min W r - min t r"
        using True by (auto simp add: min_def)
      have "off + ?c + (W - (t + 1)) * b + (min W r - min (t + 1) r) =
        off + (b + (W - (t + 1)) * b) + ((if t < r then 1 else 0) + (min W r - min (t + 1) r))"
        by simp
      then show ?thesis by (simp only: m w)
    qed
    have "concat (map (\<lambda>(a, b). [a..<b]) (slices b r W t off)) =
      [off..<off + ?c] @ concat (map (\<lambda>(a, b). [a..<b]) (slices b r W (t + 1) (off + ?c)))"
      using True by (subst slices.simps) (simp add: Let_def)
    also have "\<dots> = [off..<off + ?c] @ [off + ?c..<off + (W - t) * b + (min W r - min t r)]"
      by (simp only: ih e)
    also have "\<dots> = [off..<off + (W - t) * b + (min W r - min t r)]"
    proof (rule upt_join)
      show "off \<le> off + ?c" by simp
      show "off + ?c \<le> off + (W - t) * b + (min W r - min t r)"
        using e [symmetric] by simp
    qed
    finally show ?thesis .
  next
    case False
    with 1 have "t = W" by simp
    then show ?thesis by (subst slices.simps) simp
  qed
qed

lemma tasks_of_cover:
  assumes "0 < W"
  shows "concat (map (\<lambda>(a, b). [a..<b]) (tasks_of N W)) = [0..<N]"
proof -
  have "N mod W < W" using assms by simp
  then have "min W (N mod W) = N mod W" by simp
  then have "W * (N div W) + min W (N mod W) = N" by simp
  then show ?thesis
    by (simp add: tasks_of_def slices_cover mult.commute)
qed

lemma ceil_div:
  assumes "0 < N mod W" and W: "0 < (W::nat)"
  shows "(N + W - 1) div W = N div W + 1"
proof -
  define q m where "q = N div W" and "m = N mod W"
  have n: "N = q * W + m" by (simp add: q_def m_def)
  have m: "0 < m" "m < W" using assms by (simp_all add: m_def)
  have "q * W + m + W - 1 = (m - 1) + (q + 1) * W"
    using m by (simp add: algebra_simps)
  then have "(N + W - 1) div W = ((m - 1) + (q + 1) * W) div W"
    using n by simp
  also have "\<dots> = (q + 1) + (m - 1) div W"
    using W by (subst div_mult_self1) simp_all
  also have "\<dots> = q + 1" using m by simp
  finally show ?thesis by (simp add: q_def)
qed

text \<open>
  Claim C3. For \<open>N\<close> items and \<open>W \<ge> 2\<close> workers the slices computed by the partition loop
  are \<open>W\<close> index ranges; taken in order they enumerate \<open>0, ..., N-1\<close> exactly once (so they
  are disjoint, ordered and cover \<open>[0,N)\<close>), each range starts where the one before ends, the
  size of range \<open>t\<close> is \<open>\<lfloor>N/W\<rfloor>\<close> plus one exactly for the first \<open>N mod W\<close> ranges, which
  is \<open>\<lfloor>N/W\<rfloor>\<close> or \<open>\<lceil>N/W\<rceil>\<close>, and when \<open>N < W\<close> the ranges from index \<open>N\<close> on are empty: their
  worker invokes the callback on no item and makes no emit call.
\<close>

theorem partition_ranges:
  assumes "2 \<le> W"
  shows "length (tasks_of N W) = W \<and>
    concat (map (\<lambda>(a, b). [a..<b]) (tasks_of N W)) = [0..<N] \<and>
    fst (tasks_of N W ! 0) = 0 \<and> snd (tasks_of N W ! (W - 1)) = N \<and>
    (\<forall>t<W. fst (tasks_of N W ! t) \<le> snd (tasks_of N W ! t) \<and>
       (Suc t < W \<longrightarrow> snd (tasks_of N W ! t) = fst (tasks_of N W ! Suc t)) \<and>
       snd (tasks_of N W ! t) - fst (tasks_of N W ! t) =
         N div W + (if t < N mod W then 1 else 0) \<and>
       snd (tasks_of N W ! t) - fst (tasks_of N W ! t) =
         (if t < N mod W then (N + W - 1) div W else N div W) \<and>
       (N < W \<and> N \<le> t \<longrightarrow>
          fst (tasks_of N W ! t) = snd (tasks_of N W ! t) \<and>
          worker_items items (tasks_of N W ! t) = [] \<and>
          concat (map f (worker_items items (tasks_of N W ! t))) = []))"
proof -
  have W: "0 < W" using assms by simp
  have mW: "N mod W < W" using W by simp
  have first: "fst (tasks_of N W ! 0) = 0"
    using W by (simp add: tasks_of_nth)
  have "min W (N mod W) = N mod W" using mW by simp
  then have last: "snd (tasks_of N W ! (W - 1)) = N"
    using W by (simp add: tasks_of_nth mult.commute)
  have each: "fst (tasks_of N W ! t) \<le> snd (tasks_of N W ! t) \<and>
       (Suc t < W \<longrightarrow> snd (tasks_of N W ! t) = fst (tasks_of N W ! Suc t)) \<and>
       snd (tasks_of N W ! t) - fst (tasks_of N W ! t) =
         N div W + (if t < N mod W then 1 else 0) \<and>
       snd (tasks_of N W ! t) - fst (tasks_of N W ! t) =
         (if t < N mod W then (N + W - 1) div W else N div W) \<and>
       (N < W \<and> N \<le> t \<longrightarrow>
          fst (tasks_of N W ! t) = snd (tasks_of N W ! t) \<and>
          worker_items items (tasks_of N W ! t) = [] \<and>
          concat (map f (worker_items items (tasks_of N W ! t))) = [])" if t: "t < W" for t
  proof -
    have le: "fst (tasks_of N W ! t) \<le> snd (tasks_of N W ! t)"
      using t by (simp add: tasks_of_nth min_def)
    have link: "Suc t < W \<longrightarrow> snd (tasks_of N W ! t) = fst (tasks_of N W ! Suc t)"
      using t by (simp add: tasks_of_nth)
    have size: "snd (tasks_of N W ! t) - fst (tasks_of N W ! t) =
         N div W + (if t < N mod W then 1 else 0)"
      using t by (auto simp add: tasks_of_nth min_def)
    have ceil: "N div W + (if t < N mod W then 1 else 0) =
         (if t < N mod W then (N + W - 1) div W else N div W)"
    proof (cases "t < N mod W")
      case True
      then have "0 < N mod W" by simp
      from ceil_div [OF this W] show ?thesis using True by simp
    next
      case False
      then show ?thesis by simp
    qed
    have empty: "fst (tasks_of N W ! t) = snd (tasks_of N W ! t)" if "N < W" "N \<le> t"
      using that size le by simp
    show ?thesis
      using le link size ceil empty by (auto simp add: worker_items_def)
  qed
  show ?thesis
    using tasks_of_length [of N W] tasks_of_cover [OF W, of N] first last each by blast
qed

theorem partition_ranges_witness:
  "(2::nat) \<le> 3 \<and> length (tasks_of 2 3) = 3 \<and>
   concat (map (\<lambda>(a, b). [a..<b]) (tasks_of 2 3)) = [0..<2] \<and>
   snd (tasks_of 2 3 ! 0) - fst (tasks_of 2 3 ! 0) = 1 \<and>
   snd (tasks_of 2 3 ! 1) - fst (tasks_of 2 3 ! 1) = 1 \<and>
   fst (tasks_of 2 3 ! 2) = snd (tasks_of 2 3 ! 2) \<and>
   worker_items ''ab'' (tasks_of 2 3 ! 2) = []"
proof -
  have h: "(2::nat) \<le> 3" by simp
  note r = partition_ranges [OF h, of 2 "''ab''" "\<lambda>c. []"]
  have a: "\<forall>t<3. snd (tasks_of 2 3 ! t) - fst (tasks_of 2 3 ! t) =
         2 div 3 + (if t < 2 mod 3 then 1 else 0) \<and>
       ((2::nat) < 3 \<and> 2 \<le> t \<longrightarrow>
          fst (tasks_of 2 3 ! t) = snd (tasks_of 2 3 ! t) \<and>
          worker_items ''ab'' (tasks_of 2 3 ! t) = [])"
    using r by blast
  have "length (tasks_of 2 3) = 3"
    and "concat (map (\<lambda>(a, b). [a..<b]) (tasks_of 2 3)) = [0..<2]"
    using r by blast+
  then show ?thesis
    using a [rule_format, of 0] a [rule_format, of 1] a [rule_format, of 2] by simp
qed

subsection \<open>Workers and schedules\<close>

lemma concat_update_Cons:
  "t < length qs \<Longrightarrow> qs ! t = x # r \<Longrightarrow>
   mset (concat (qs[t := r])) + {#x#} = mset (concat qs)"
proof (induction qs arbitrary: t)
  case Nil
  then show ?case by simp
next
  case (Cons q qs)
  then show ?case by (cases t) auto
qed

lemma run_workers_mset: "mset (run_workers sched qs) = mset (concat qs)"
proof (induction sched arbitrary: qs)
  case Nil
  then show ?case by simp
next
  case (Cons t sched)
  show ?case
  proof (cases "t < length qs")
    case False
    then show ?thesis using Cons.IH by simp
  next
    case True
    show ?thesis
    proof (cases "qs ! t")
      case Nil
      then show ?thesis using True Cons.IH by simp
    next
      case (Cons x r)
      have "mset (run_workers (t # sched) qs) = {#x#} + mset (concat (qs[t := r]))"
        using True Cons Cons.IH by simp
      then show ?thesis
        using concat_update_Cons [OF True Cons] by (simp add: add.commute)
    qed
  qed
qed

lemma worker_items_concat:
  assumes "0 < W"
  shows "concat (map (worker_items items) (tasks_of (length items) W)) = items"
proof -
  have "concat (map (worker_items items) ts) =
      map (\<lambda>i. items ! i) (concat (map (\<lambda>(a, b). [a..<b]) ts))" for ts
    by (induction ts) (auto simp add: worker_items_def)
  then show ?thesis
    using tasks_of_cover [OF assms, of "length items"] by (simp add: map_nth)
qed

lemma stage_invocations_all: "stage_invocations items W = items"
  by (simp add: stage_invocations_def worker_items_concat)

lemma stage_calls_mset:
  "mset (stage_calls sched items f W) = mset (concat (map f items))"
proof (cases "W \<le> 1")
  case True
  then show ?thesis by (simp add: stage_calls_def)
next
  case False
  then have W: "0 < W" by simp
  let ?ts = "tasks_of (length items) W"
  have "concat (map (\<lambda>task. concat (map f (worker_items items task))) ts) =
      concat (map f (concat (map (worker_items items) ts)))" for ts
    by (induction ts) auto
  then have "concat (map (\<lambda>task. concat (map f (worker_items items task))) ?ts) =
      concat (map f items)"
    by (simp add: worker_items_concat [OF W])
  then show ?thesis
    using False by (simp add: stage_calls_def run_workers_mset)
qed

lemma stage_calls_none:
  assumes "\<forall>x\<in>set items. f x = []"
  shows "stage_calls sched items f W = []"
proof -
  have "concat (map f items) = []" using assms by simp
  then have "mset (stage_calls sched items f W) = {#}"
    by (simp add: stage_calls_mset)
  then show ?thesis by simp
qed

subsection \<open>Sequences of emit calls\<close>

lemma mr_emit_i_cases:
  assumes "mr_emit_i e ok k v s = (r, s')"
  shows "(r = - 1 \<and> s' = s) \<or>
    (r = 0 \<and> inter_count s' = Suc (inter_count s) \<and>
     live (inter_kvs s') (Suc (inter_count s)) = live (inter_kvs s) (inter_count s) @ [stored e k v] \<and>
     final_kvs s' = final_kvs s \<and> final_count s' = final_count s \<and> final_cap s' = final_cap s)"
  using assms by (auto simp add: mr_emit_i_def Let_def live_snoc split: if_splits)

lemma mr_emit_f_cases:
  assumes "mr_emit_f e ok k v s = (r, s')"
  shows "(r = - 1 \<and> s' = s) \<or>
    (r = 0 \<and> final_count s' = Suc (final_count s) \<and>
     live (final_kvs s') (Suc (final_count s)) = live (final_kvs s) (final_count s) @ [stored e k v] \<and>
     inter_kvs s' = inter_kvs s \<and> inter_count s' = inter_count s \<and> inter_cap s' = inter_cap s)"
  using assms by (auto simp add: mr_emit_f_def Let_def live_snoc split: if_splits)

lemma mr_emit_i_ok:
  "mr_emit_i e True k v s = (r, s') \<Longrightarrow> r = 0"
  by (auto simp add: mr_emit_i_def Let_def split: if_splits)

lemma mr_emit_f_ok:
  "mr_emit_f e True k v s = (r, s') \<Longrightarrow> r = 0"
  by (auto simp add: mr_emit_f_def Let_def split: if_splits)

lemma kept_Cons:
  "kept e ((k, v) # cs) (r # rs) = (if r = 0 then [stored e k v] else []) @ kept e cs rs"
  by (simp add: kept_def)

lemma kept_all: "length rs = length cs \<Longrightarrow> \<forall>r\<in>set rs. r = 0 \<Longrightarrow>
  kept e cs rs = map (\<lambda>(k, v). stored e k v) cs"
proof (induction cs arbitrary: rs)
  case Nil
  then show ?case by (simp add: kept_def)
next
  case (Cons c cs)
  then obtain r rs' where rs: "rs = r # rs'" by (cases rs) auto
  obtain k v where c: "c = (k, v)" by (cases c)
  show ?case using Cons rs c by (simp add: kept_Cons)
qed

lemma emit_all_i_spec:
  "emit_all_i e n cs s = (rs, s') \<Longrightarrow>
   length rs = length cs \<and> set rs \<subseteq> {0, - 1} \<and>
   live (inter_kvs s') (inter_count s') = live (inter_kvs s) (inter_count s) @ kept e cs rs \<and>
   final_kvs s' = final_kvs s \<and> final_count s' = final_count s \<and> final_cap s' = final_cap s"
proof (induction cs arbitrary: n s rs s')
  case Nil
  then show ?case by (simp add: kept_def)
next
  case (Cons c cs)
  obtain k v where c: "c = (k, v)" by (cases c)
  obtain r s1 where e1: "mr_emit_i e (realloc_inter e n) k v s = (r, s1)" by fastforce
  obtain rs1 s2 where e2: "emit_all_i e (Suc n) cs s1 = (rs1, s2)" by fastforce
  have res: "rs = r # rs1" "s' = s2"
    using Cons.prems c e1 e2 by simp_all
  note ih = Cons.IH [OF e2]
  from mr_emit_i_cases [OF e1] show ?case
  proof
    assume "r = - 1 \<and> s1 = s"
    then show ?thesis using ih res c by (simp add: kept_Cons)
  next
    assume "r = 0 \<and> inter_count s1 = Suc (inter_count s) \<and>
     live (inter_kvs s1) (Suc (inter_count s)) = live (inter_kvs s) (inter_count s) @ [stored e k v] \<and>
     final_kvs s1 = final_kvs s \<and> final_count s1 = final_count s \<and> final_cap s1 = final_cap s"
    then show ?thesis using ih res c by (simp add: kept_Cons)
  qed
qed

lemma emit_all_f_spec:
  "emit_all_f e n cs s = (rs, s') \<Longrightarrow>
   length rs = length cs \<and> set rs \<subseteq> {0, - 1} \<and>
   live (final_kvs s') (final_count s') = live (final_kvs s) (final_count s) @ kept e cs rs \<and>
   inter_kvs s' = inter_kvs s \<and> inter_count s' = inter_count s \<and> inter_cap s' = inter_cap s"
proof (induction cs arbitrary: n s rs s')
  case Nil
  then show ?case by (simp add: kept_def)
next
  case (Cons c cs)
  obtain k v where c: "c = (k, v)" by (cases c)
  obtain r s1 where e1: "mr_emit_f e (realloc_final e n) k v s = (r, s1)" by fastforce
  obtain rs1 s2 where e2: "emit_all_f e (Suc n) cs s1 = (rs1, s2)" by fastforce
  have res: "rs = r # rs1" "s' = s2"
    using Cons.prems c e1 e2 by simp_all
  note ih = Cons.IH [OF e2]
  from mr_emit_f_cases [OF e1] show ?case
  proof
    assume "r = - 1 \<and> s1 = s"
    then show ?thesis using ih res c by (simp add: kept_Cons)
  next
    assume "r = 0 \<and> final_count s1 = Suc (final_count s) \<and>
     live (final_kvs s1) (Suc (final_count s)) = live (final_kvs s) (final_count s) @ [stored e k v] \<and>
     inter_kvs s1 = inter_kvs s \<and> inter_count s1 = inter_count s \<and> inter_cap s1 = inter_cap s"
    then show ?thesis using ih res c by (simp add: kept_Cons)
  qed
qed

lemma emit_all_i_ok:
  "\<forall>n. realloc_inter e n \<Longrightarrow> emit_all_i e n cs s = (rs, s') \<Longrightarrow> \<forall>r\<in>set rs. r = 0"
proof (induction cs arbitrary: n s rs s')
  case Nil
  then show ?case by simp
next
  case (Cons c cs)
  obtain k v where c: "c = (k, v)" by (cases c)
  obtain r s1 where e1: "mr_emit_i e (realloc_inter e n) k v s = (r, s1)" by fastforce
  obtain rs1 s2 where e2: "emit_all_i e (Suc n) cs s1 = (rs1, s2)" by fastforce
  have res: "rs = r # rs1" using Cons.prems c e1 e2 by simp
  have "r = 0" using e1 Cons.prems(1) mr_emit_i_ok by simp
  then show ?case using Cons.IH [OF Cons.prems(1) e2] res by simp
qed

subsection \<open>Allocation in the group and pack loops\<close>

lemma build_groups_allocated:
  "\<forall>g. malloc_group_value e g \<Longrightarrow> \<exists>gs. build_groups e xs i groups = Some gs"
proof (induction e xs i groups rule: build_groups.induct)
  case (1 e xs i groups)
  show ?case
  proof (cases "i < length xs")
    case True
    then show ?thesis
      using 1 by (subst build_groups.simps) (simp add: Let_def)
  next
    case False
    then show ?thesis by (subst build_groups.simps) simp
  qed
qed

lemma pack_loop_allocated:
  "\<forall>i. malloc_output_value e i \<Longrightarrow> \<exists>recs'. pack_loop e fs i recs = Inr recs'"
proof (induction e fs i recs rule: pack_loop.induct)
  case (1 e fs i recs)
  show ?case
  proof (cases "i < length fs")
    case True
    then show ?thesis
      using 1 by (subst pack_loop.simps) simp
  next
    case False
    then show ?thesis by (subst pack_loop.simps) simp
  qed
qed

subsection \<open>Runs without intermediate pairs\<close>

text \<open>
  Claim C6. When the intermediate buffer is empty after the map stage, \<open>mr_exec\<close> returns
  status \<open>0\<close> with an output count of zero; no group is built, the reduce callback is invoked
  on nothing and the final buffer stays empty. The buffer is empty after the map stage
  whenever the map callback makes no emit call on any input record, in particular on empty
  input.
\<close>

theorem no_intermediate_pairs:
  "(inter_count (snd (map_stage e input map_fn mapper_count
        (s0\<lparr>inter_count := 0, final_count := 0\<rparr>))) = 0 \<longrightarrow>
     (\<exists>r. mr_exec e input map_fn mapper_count reduce_fn reducer_count out s0 = Inr r \<and>
          status r = 0 \<and> lst_count (returned r) = 0 \<and>
          groups_built r = [] \<and> reduce_invoked r = [] \<and> final_count (globals r) = 0)) \<and>
   ((\<forall>x\<in>set input. map_fn x = []) \<longrightarrow>
      inter_count (snd (map_stage e input map_fn mapper_count
        (s0\<lparr>inter_count := 0, final_count := 0\<rparr>))) = 0)"
proof (intro conjI impI)
  let ?s1 = "s0\<lparr>inter_count := 0, final_count := 0\<rparr>"
  assume z: "inter_count (snd (map_stage e input map_fn mapper_count ?s1)) = 0"
  obtain rs s2 where m: "map_stage e input map_fn mapper_count ?s1 = (rs, s2)"
    by fastforce
  have "final_count s2 = 0"
    using emit_all_i_spec [of e 0 _ ?s1 rs s2] m by (simp add: map_stage_def)
  then show "\<exists>r. mr_exec e input map_fn mapper_count reduce_fn reducer_count out s0 = Inr r \<and>
          status r = 0 \<and> lst_count (returned r) = 0 \<and>
          groups_built r = [] \<and> reduce_invoked r = [] \<and> final_count (globals r) = 0"
    using z m by (simp add: mr_exec_def Let_def)
next
  let ?s1 = "s0\<lparr>inter_count := 0, final_count := 0\<rparr>"
  assume "\<forall>x\<in>set input. map_fn x = []"
  then have "stage_calls (map_sched e) input map_fn mapper_count = []"
    by (rule stage_calls_none)
  then show "inter_count (snd (map_stage e input map_fn mapper_count ?s1)) = 0"
    by (simp add: map_stage_def)
qed

theorem no_intermediate_pairs_witness:
  "(\<exists>r. mr_exec env8 ([]::string list) (\<lambda>x. [(x, ''1'')]) 4 (\<lambda>g. [(out_key g, ''1'')]) 4
          no_output fresh = Inr r \<and>
        status r = 0 \<and> lst_count (returned r) = 0 \<and>
        groups_built r = [] \<and> reduce_invoked r = [] \<and> final_count (globals r) = 0)"
  using no_intermediate_pairs [of env8 "[]::string list" "\<lambda>x. [(x, ''1'')]" 4 fresh
      "\<lambda>g. [(out_key g, ''1'')]" 4 no_output]
  by simp

text \<open>
  Claim C10. When the intermediate buffer is empty after the map stage, \<open>mr_exec\<close> stores
  the null pointer in \<open>output->kv_lst\<close> and zero in \<open>output->count\<close>, whatever the caller
  had put there: the caller is handed no allocation.
\<close>

theorem no_pairs_null_output:
  "inter_count (snd (map_stage e input map_fn mapper_count
        (s0\<lparr>inter_count := 0, final_count := 0\<rparr>))) = 0 \<Longrightarrow>
   \<exists>r. mr_exec e input map_fn mapper_count reduce_fn reducer_count out s0 = Inr r \<and>
       kv_lst (returned r) = None \<and> lst_count (returned r) = 0"
proof -
  let ?s1 = "s0\<lparr>inter_count := 0, final_count := 0\<rparr>"
  assume z: "inter_count (snd (map_stage e input map_fn mapper_count ?s1)) = 0"
  obtain rs s2 where m: "map_stage e input map_fn mapper_count ?s1 = (rs, s2)"
    by fastforce
  show ?thesis
    using z m by (simp add: mr_exec_def Let_def)
qed

theorem no_pairs_null_output_witness:
  "inter_count (snd (map_stage env8 [''a''] (\<lambda>x. []) 1
        (fresh\<lparr>inter_count := 0, final_count := 0\<rparr>))) = 0 \<and>
   (\<exists>r. mr_exec env8 [''a''] (\<lambda>x. []) 1 (\<lambda>g. []) 1
          \<lparr>kv_lst = Some [], lst_count = 7\<rparr> fresh = Inr r \<and>
       kv_lst (returned r) = None \<and> lst_count (returned r) = 0)"
proof -
  have h: "inter_count (snd (map_stage env8 [''a''] (\<lambda>x. []) 1
        (fresh\<lparr>inter_count := 0, final_count := 0\<rparr>))) = 0"
    by (simp add: map_stage_def stage_calls_def fresh_def)
  from no_pairs_null_output [OF h] show ?thesis using h by blast
qed

subsection \<open>Allocation failures and emit failures in a run\<close>

lemmas run_defs =
  mr_exec_def map_stage_def stage_calls_def mr_emit_i_def mr_emit_f_def env8_def fresh_def
  no_output_def Let_def group_stage_def qsort_in_place_def live_def build_groups.simps
  scan.simps reduce_stage_def pack_stage_def pack_loop.simps stage_invocations_def
  stored_def strncpy_def c_str_def cmp_kv_def entry_bytes_def INITIAL_CAP_def

text \<open>
  Claim C7. One input record, a map callback that emits one pair, a reduce callback that
  emits one pair, and an allocator that refuses only the \<open>malloc\<close> of the value of output
  record 0. The copy loop of the packer does not test that pointer: the run ends in the
  write through the null pointer, not in a returned \<open>-1\<close>. With the group array, a group's
  value array or the output array refused instead, the same run returns \<open>-1\<close>.
\<close>

theorem output_value_malloc_unchecked:
  "mr_exec (env8\<lparr>malloc_output_value := (\<lambda>i. False)\<rparr>) [''a''] (\<lambda>x. [(x, ''1'')]) 1
     (\<lambda>g. [(c_str (out_key g), ''1'')]) 1 no_output fresh = Inl Null_dereference \<and>
   (\<exists>r. mr_exec (env8\<lparr>malloc_groups := False\<rparr>) [''a''] (\<lambda>x. [(x, ''1'')]) 1
     (\<lambda>g. [(c_str (out_key g), ''1'')]) 1 no_output fresh = Inr r \<and> status r = - 1) \<and>
   (\<exists>r. mr_exec (env8\<lparr>malloc_group_value := (\<lambda>g. False)\<rparr>) [''a''] (\<lambda>x. [(x, ''1'')]) 1
     (\<lambda>g. [(c_str (out_key g), ''1'')]) 1 no_output fresh = Inr r \<and> status r = - 1) \<and>
   (\<exists>r. mr_exec (env8\<lparr>malloc_output := False\<rparr>) [''a''] (\<lambda>x. [(x, ''1'')]) 1
     (\<lambda>g. [(c_str (out_key g), ''1'')]) 1 no_output fresh = Inr r \<and> status r = - 1)"
  by (simp add: run_defs)

text \<open>
  Claim C8, as stated, fails. First run: the buffer growth of the only \<open>mr_emit_i\<close> call
  fails, the call returns \<open>-1\<close> to the map callback, and \<open>mr_exec\<close> returns \<open>0\<close> with no
  output. Second run: the only \<open>mr_emit_f\<close> call fails in the same way inside the reduce
  callback, and \<open>mr_exec\<close> returns \<open>0\<close> with an empty output array.
\<close>

theorem emit_failure_lost_counterexample:
  "(\<exists>r. mr_exec (env8\<lparr>realloc_inter := (\<lambda>n. False)\<rparr>) [''a''] (\<lambda>x. [(x, ''1'')]) 1
        (\<lambda>g. [(c_str (out_key g), ''1'')]) 1 no_output fresh = Inr r \<and>
      emit_returns r = [- 1] \<and> status r = 0 \<and> kv_lst (returned r) = None) \<and>
   (\<exists>r. mr_exec (env8\<lparr>realloc_final := (\<lambda>n. False)\<rparr>) [''a''] (\<lambda>x. [(x, ''1'')]) 1
        (\<lambda>g. [(c_str (out_key g), ''1'')]) 1 no_output fresh = Inr r \<and>
      emit_returns r = [0, - 1] \<and> status r = 0 \<and> kv_lst (returned r) = Some [])"
  by (simp add: run_defs)

text \<open>
  Claim C8, amended. The value an emit call returns goes to the callback that made the call
  and no further. A stage makes every emit call of its callbacks whatever the earlier calls
  returned, each call returns \<open>0\<close> or \<open>-1\<close>, and the buffer receives exactly the pairs of
  the calls that returned \<open>0\<close>. The status of \<open>mr_exec\<close> comes from its own allocations:
  when the group array, the value arrays of the groups, the output array and the values of
  the output records are all allocated, \<open>mr_exec\<close> returns \<open>0\<close>, whatever the growth
  allocations of the emit calls did.
\<close>

theorem emit_failure_stays_with_callback:
  assumes "malloc_groups e" and "\<forall>g. malloc_group_value e g"
    and "malloc_output e" and "\<forall>i. malloc_output_value e i"
  shows "(\<exists>r. mr_exec e input map_fn mapper_count reduce_fn reducer_count out s0 = Inr r \<and>
            status r = 0) \<and>
    (\<forall>rs s'. map_stage e input map_fn mapper_count s = (rs, s') \<longrightarrow>
       length rs = length (stage_calls (map_sched e) input map_fn mapper_count) \<and>
       set rs \<subseteq> {0, - 1} \<and>
       live (inter_kvs s') (inter_count s') =
         live (inter_kvs s) (inter_count s) @
         kept e (stage_calls (map_sched e) input map_fn mapper_count) rs) \<and>
    (\<forall>rs s'. reduce_stage e groups reduce_fn reducer_count s = (rs, s') \<longrightarrow>
       length rs = length (stage_calls (reduce_sched e) groups reduce_fn reducer_count) \<and>
       set rs \<subseteq> {0, - 1} \<and>
       live (final_kvs s') (final_count s') =
         live (final_kvs s) (final_count s) @
         kept e (stage_calls (reduce_sched e) groups reduce_fn reducer_count) rs)"
proof (intro conjI allI impI)
  let ?s1 = "s0\<lparr>inter_count := 0, final_count := 0\<rparr>"
  obtain rs s2 where m: "map_stage e input map_fn mapper_count ?s1 = (rs, s2)"
    by fastforce
  show "\<exists>r. mr_exec e input map_fn mapper_count reduce_fn reducer_count out s0 = Inr r \<and>
            status r = 0"
  proof (cases "inter_count s2 = 0")
    case True
    then show ?thesis using m by (simp add: mr_exec_def Let_def)
  next
    case False
    let ?s3 = "s2\<lparr>inter_kvs := qsort_in_place e (inter_kvs s2) (inter_count s2)\<rparr>"
    obtain gs where g: "build_groups e (live (inter_kvs ?s3) (inter_count ?s3)) 0 [] = Some gs"
      using build_groups_allocated [OF assms(2)] by blast
    then have gst: "group_stage e s2 = (?s3, Some gs)"
      using assms(1) by (simp add: group_stage_def Let_def)
    obtain rf s4 where r: "reduce_stage e gs reduce_fn reducer_count ?s3 = (rf, s4)"
      by fastforce
    let ?s5 = "s4\<lparr>final_kvs := qsort_in_place e (final_kvs s4) (final_count s4)\<rparr>"
    obtain recs where p: "pack_loop e (live (final_kvs ?s5) (final_count ?s5)) 0 [] = Inr recs"
      using pack_loop_allocated [OF assms(4)] by blast
    then have "pack_stage e out s4 =
        Inr (0, out\<lparr>kv_lst := Some recs, lst_count := final_count ?s5\<rparr>, ?s5)"
      using assms(3) by (simp add: pack_stage_def Let_def)
    then show ?thesis
      using False m gst r by (simp add: mr_exec_def Let_def)
  qed
next
  fix rs s'
  assume "map_stage e input map_fn mapper_count s = (rs, s')"
  then have a: "emit_all_i e 0 (stage_calls (map_sched e) input map_fn mapper_count) s = (rs, s')"
    by (simp add: map_stage_def)
  from emit_all_i_spec [OF a]
  show "length rs = length (stage_calls (map_sched e) input map_fn mapper_count)"
    and "set rs \<subseteq> {0, - 1}"
    and "live (inter_kvs s') (inter_count s') =
         live (inter_kvs s) (inter_count s) @
         kept e (stage_calls (map_sched e) input map_fn mapper_count) rs"
    by simp_all
next
  fix rs s'
  assume "reduce_stage e groups reduce_fn reducer_count s = (rs, s')"
  then have a: "emit_all_f e 0 (stage_calls (reduce_sched e) groups reduce_fn reducer_count) s
      = (rs, s')"
    by (simp add: reduce_stage_def)
  from emit_all_f_spec [OF a]
  show "length rs = length (stage_calls (reduce_sched e) groups reduce_fn reducer_count)"
    and "set rs \<subseteq> {0, - 1}"
    and "live (final_kvs s') (final_count s') =
         live (final_kvs s) (final_count s) @
         kept e (stage_calls (reduce_sched e) groups reduce_fn reducer_count) rs"
    by simp_all
qed

theorem emit_failure_stays_with_callback_witness:
  "malloc_groups (env8\<lparr>realloc_inter := (\<lambda>n. 0 < n)\<rparr>) \<and>
   (\<exists>r. mr_exec (env8\<lparr>realloc_inter := (\<lambda>n. 0 < n)\<rparr>) [''b'', ''a'']
          (\<lambda>x. [(x, ''1'')]) 1 (\<lambda>g. [(c_str (out_key g), ''1'')]) 1 no_output fresh = Inr r \<and>
        status r = 0) \<and>
   map_stage (env8\<lparr>realloc_inter := (\<lambda>n. 0 < n)\<rparr>) [''b'', ''a'']
          (\<lambda>x. [(x, ''1'')]) 1 fresh =
     ([- 1, 0], snd (map_stage (env8\<lparr>realloc_inter := (\<lambda>n. 0 < n)\<rparr>) [''b'', ''a'']
          (\<lambda>x. [(x, ''1'')]) 1 fresh)) \<and>
   live (inter_kvs (snd (map_stage (env8\<lparr>realloc_inter := (\<lambda>n. 0 < n)\<rparr>) [''b'', ''a'']
          (\<lambda>x. [(x, ''1'')]) 1 fresh)))
     (inter_count (snd (map_stage (env8\<lparr>realloc_inter := (\<lambda>n. 0 < n)\<rparr>) [''b'', ''a'']
          (\<lambda>x. [(x, ''1'')]) 1 fresh))) =
     [stored env8 ''a'' ''1'']"
proof -
  let ?e = "env8\<lparr>realloc_inter := (\<lambda>n. 0 < n)\<rparr>"
  have h: "malloc_groups ?e" "\<forall>g. malloc_group_value ?e g" "malloc_output ?e"
    "\<forall>i. malloc_output_value ?e i"
    by (simp_all add: env8_def)
  note t = emit_failure_stays_with_callback [OF h, of "[''b'', ''a'']" "\<lambda>x. [(x, ''1'')]" 1
      "\<lambda>g. [(c_str (out_key g), ''1'')]" 1 no_output fresh fresh]
  have m: "map_stage ?e [''b'', ''a''] (\<lambda>x. [(x, ''1'')]) 1 fresh =
     ([- 1, 0], snd (map_stage ?e [''b'', ''a''] (\<lambda>x. [(x, ''1'')]) 1 fresh))"
    by (simp add: map_stage_def stage_calls_def mr_emit_i_def env8_def fresh_def Let_def)
  have c: "stage_calls (map_sched ?e) [''b'', ''a''] (\<lambda>x. [(x, ''1'')]) 1 =
      [(''b'', ''1''), (''a'', ''1'')]"
    by (simp add: stage_calls_def)
  have l: "live (inter_kvs (snd (map_stage ?e [''b'', ''a''] (\<lambda>x. [(x, ''1'')]) 1 fresh)))
     (inter_count (snd (map_stage ?e [''b'', ''a''] (\<lambda>x. [(x, ''1'')]) 1 fresh))) =
     live (inter_kvs fresh) (inter_count fresh) @ kept ?e [(''b'', ''1''), (''a'', ''1'')] [- 1, 0]"
    using t m c by (metis (no_types, lifting))
  have "live (inter_kvs fresh) (inter_count fresh) = []" by (simp add: fresh_def)
  moreover have "kept ?e [(''b'', ''1''), (''a'', ''1'')] [- 1, 0] = [stored env8 ''a'' ''1'']"
    by (simp add: kept_def stored_def env8_def)
  ultimately show ?thesis using h(1) t m l by simp
qed

subsection \<open>\<open>strcmp\<close> is the byte-wise lexicographic order of the stored strings\<close>

lemma of_char_zero_iff: "(of_char c = (0::nat)) = (c = NUL)"
proof -
  have "(of_char c = (of_char NUL :: nat)) = (c = NUL)" by (rule of_char_eq_iff)
  then show ?thesis by simp
qed

lemma char_less_int: "(int (of_char a) - int (of_char b) < 0) = (a < b)"
  by (simp add: less_char_def)

lemma of_char_pos: "c \<noteq> NUL \<Longrightarrow> 0 < (of_char c :: nat)"
  using of_char_zero_iff [of c] by (cases "of_char c :: nat") simp_all

lemma NUL_least: "c \<noteq> NUL \<Longrightarrow> NUL < c"
  by (simp add: less_char_def of_char_pos)

lemma not_less_NUL: "\<not> c < NUL"
  by (simp add: less_char_def)

lemma c_str_Cons: "c_str (a # as) = (if a = NUL then [] else a # c_str as)"
  by (simp add: c_str_def)

lemma c_str_Nil [simp]: "c_str [] = []"
  by (simp add: c_str_def)

lemma strcmp_zero: "(strcmp a b = 0) = (c_str a = c_str b)"
proof (induction a b rule: strcmp.induct)
  case (1 a as b bs)
  then show ?case by (auto simp add: c_str_Cons of_char_pos)
next
  case (2 b bs)
  then show ?case by (auto simp add: c_str_Cons of_char_zero_iff)
next
  case (3 a as)
  then show ?case by (auto simp add: c_str_Cons of_char_zero_iff)
next
  case 4
  then show ?case by simp
qed

lemma strcmp_less: "(strcmp a b < 0) = (c_str a < c_str b)"
proof (induction a b rule: strcmp.induct)
  case (1 a as b bs)
  show ?case
  proof (cases "a = b \<and> a \<noteq> NUL")
    case True
    then show ?thesis using 1 by (simp add: c_str_Cons)
  next
    case False
    have s: "strcmp (a # as) (b # bs) = int (of_char a) - int (of_char b)"
      using False by auto
    show ?thesis
    proof (cases "a = b")
      case True
      then show ?thesis using False s by (simp add: c_str_Cons)
    next
      case ne: False
      show ?thesis
        unfolding s char_less_int
        using ne NUL_least [of b] not_less_NUL [of a] by (auto simp add: c_str_Cons)
    qed
  qed
next
  case (2 b bs)
  then show ?case by (auto simp add: c_str_Cons of_char_pos)
next
  case (3 a as)
  then show ?case by (auto simp add: c_str_Cons)
next
  case 4
  then show ?case by simp
qed

lemma strcmp_le: "(strcmp a b \<le> 0) = (c_str a \<le> c_str b)"
  using strcmp_zero [of a b] strcmp_less [of a b] by (auto simp add: order.order_iff_strict)

lemma cmp_kv_le: "(cmp_kv a b \<le> 0) = (read_key a \<le> read_key b)"
  by (simp add: cmp_kv_def read_key_def strcmp_le)

lemma qsort_sorted:
  assumes "qsort_contract qs"
  shows "sorted (map read_key (qs xs))" and "mset (qs xs) = mset xs"
    and "length (qs xs) = length xs" and "set (qs xs) = set xs"
proof -
  have c: "mset (qs xs) = mset xs" "sorted_wrt (\<lambda>a b. cmp_kv a b \<le> 0) (qs xs)"
    using assms by (simp_all add: qsort_contract_def)
  show "mset (qs xs) = mset xs" by (rule c(1))
  show "sorted (map read_key (qs xs))"
    using c(2) by (simp add: sorted_map cmp_kv_le)
  show "length (qs xs) = length xs" using c(1) by (rule mset_eq_length)
  show "set (qs xs) = set xs" using c(1) by (rule mset_eq_setD)
qed

lemma insert_kv_mset: "mset (insert_kv x ys) = add_mset x (mset ys)"
  by (induction ys) auto

lemma insert_kv_set: "set (insert_kv x ys) = insert x (set ys)"
  by (induction ys) auto

lemma insert_kv_sorted:
  "sorted (map read_key ys) \<Longrightarrow> sorted (map read_key (insert_kv x ys))"
  by (induction ys) (auto simp add: cmp_kv_le insert_kv_set)

lemma isort_kv_contract: "qsort_contract isort_kv"
proof -
  have m: "mset (isort_kv xs) = mset xs" for xs
    by (induction xs) (simp_all add: insert_kv_mset)
  have s: "sorted (map read_key (isort_kv xs))" for xs
    by (induction xs) (simp_all add: insert_kv_sorted)
  show ?thesis
    unfolding qsort_contract_def using m s by (simp add: sorted_map cmp_kv_le)
qed

subsection \<open>The grouping loop builds the runs of equal keys\<close>

lemma scan_takeWhile:
  "j \<le> length xs \<Longrightarrow>
   scan xs i j = j + length (takeWhile (\<lambda>p. read_key p = read_key (xs ! i)) (drop j xs))"
proof (induction xs i j rule: scan.induct)
  case (1 xs i j)
  show ?case
  proof (cases "j < length xs")
    case False
    then have "scan xs i j = j" by (subst scan.simps) simp
    then show ?thesis using False by simp
  next
    case True
    then have d: "drop j xs = xs ! j # drop (Suc j) xs"
      by (simp add: Cons_nth_drop_Suc)
    show ?thesis
    proof (cases "strcmp (entry_bytes (xs ! j)) (entry_bytes (xs ! i)) = 0")
      case eq: True
      then have k: "read_key (xs ! j) = read_key (xs ! i)"
        by (simp add: strcmp_zero read_key_def)
      have "scan xs i j = scan xs i (j + 1)"
        using True eq by (subst scan.simps) simp
      also have "\<dots> = j + 1 + length (takeWhile (\<lambda>p. read_key p = read_key (xs ! i))
          (drop (j + 1) xs))"
        using 1 True eq by simp
      finally show ?thesis using d k by simp
    next
      case ne: False
      then have k: "read_key (xs ! j) \<noteq> read_key (xs ! i)"
        by (simp add: strcmp_zero read_key_def)
      have "scan xs i j = j" using ne by (subst scan.simps) simp
      then show ?thesis using d k by simp
    qed
  qed
qed

lemma nth_run: "i + n \<le> length xs \<Longrightarrow> map (\<lambda>k. xs ! (i + k)) [0..<n] = take n (drop i xs)"
  by (rule nth_equalityI) simp_all

lemma build_groups_runs:
  "i \<le> length xs \<Longrightarrow>
   build_groups e xs i groups =
     (if \<forall>g < length (runs (drop i xs)). malloc_group_value e (length groups + g)
      then Some (groups @ map (to_group e) (runs (drop i xs))) else None)"
proof (induction e xs i groups rule: build_groups.induct)
  case (1 e xs i groups)
  show ?case
  proof (cases "i < length xs")
    case False
    then have "build_groups e xs i groups = Some groups"
      by (subst build_groups.simps) simp
    then show ?thesis using False by simp
  next
    case True
    let ?P = "\<lambda>p. read_key p = read_key (xs ! i)"
    let ?tw = "takeWhile ?P (drop (Suc i) xs)"
    let ?dw = "dropWhile ?P (drop (Suc i) xs)"
    let ?j = "scan xs i (i + 1)"
    let ?g = "\<lparr>out_key = strncpy (kv_key (xs ! i)) (MAX_KEY_SIZE e),
               out_value = map (\<lambda>k. strncpy (kv_value (xs ! (i + k))) (MAX_VALUE_SIZE e))
                               [0..<?j - i],
               out_count = ?j - i\<rparr>"
    have d: "drop i xs = xs ! i # drop (Suc i) xs"
      using True by (simp add: Cons_nth_drop_Suc)
    have j: "?j = Suc i + length ?tw"
      using True scan_takeWhile [of "i + 1" xs i] by simp
    have jle: "?j \<le> length xs"
      using True scan_le [of "i + 1" xs i] by simp
    have dj: "drop ?j xs = ?dw"
      using j by (simp add: dropWhile_eq_drop [of ?P "drop (Suc i) xs"] add.commute)
    have run: "take (?j - i) (drop i xs) = xs ! i # ?tw"
      using j takeWhile_eq_take [of ?P "drop (Suc i) xs"] by (simp add: d)
    have "map (\<lambda>k. xs ! (i + k)) [0..<?j - i] = xs ! i # ?tw"
      using nth_run [of i "?j - i" xs] jle run j by simp
    then have "map (\<lambda>k. strncpy (kv_value (xs ! (i + k))) (MAX_VALUE_SIZE e)) [0..<?j - i] =
        map (\<lambda>p. strncpy (kv_value p) (MAX_VALUE_SIZE e)) (xs ! i # ?tw)"
      using map_map [of "\<lambda>p. strncpy (kv_value p) (MAX_VALUE_SIZE e)" "\<lambda>k. xs ! (i + k)"
          "[0..<?j - i]"]
      by (simp add: comp_def)
    then have g: "?g = to_group e (xs ! i # ?tw)"
      using j by (simp add: to_group_def)
    have rs: "runs (drop i xs) = (xs ! i # ?tw) # runs ?dw"
      by (simp add: d)
    show ?thesis
    proof (cases "malloc_group_value e (length groups)")
      case False
      then have "build_groups e xs i groups = None"
        using True by (subst build_groups.simps) (simp add: Let_def)
      moreover have "\<not> (\<forall>g < length (runs (drop i xs)). malloc_group_value e (length groups + g))"
        using False rs by auto
      ultimately show ?thesis by simp
    next
      case ok: True
      have all: "(\<forall>g < length (runs (drop i xs)). malloc_group_value e (length groups + g)) =
          (\<forall>g < length (runs ?dw). malloc_group_value e (length (groups @ [?g]) + g))"
        using ok rs by (simp add: All_less_Suc2)
      have "build_groups e xs i groups = build_groups e xs ?j (groups @ [?g])"
        using True ok by (subst build_groups.simps) (simp add: Let_def)
      also have "\<dots> =
          (if \<forall>g < length (runs (drop ?j xs)). malloc_group_value e (length (groups @ [?g]) + g)
           then Some ((groups @ [?g]) @ map (to_group e) (runs (drop ?j xs))) else None)"
        using "1.IH" [OF True refl refl _ jle] ok by simp
      also have "\<dots> =
          (if \<forall>g < length (runs (drop i xs)). malloc_group_value e (length groups + g)
           then Some (groups @ map (to_group e) (runs (drop i xs))) else None)"
        unfolding all dj using g by (simp add: rs)
      finally show ?thesis .
    qed
  qed
qed

lemma runs_sets: "r \<in> set (runs xs) \<Longrightarrow> r \<noteq> [] \<and> set r \<subseteq> set xs"
proof (induction xs arbitrary: r rule: runs.induct)
  case 1
  then show ?case by simp
next
  case (2 x xs)
  then show ?case
    by (auto dest: set_takeWhileD set_dropWhileD)
qed

lemma runs_keys: "map (\<lambda>r. read_key (hd r)) (runs xs) = remdups_adj (map read_key xs)"
proof (induction xs rule: runs.induct)
  case 1
  then show ?case by simp
next
  case (2 x xs)
  have "remdups_adj (map read_key (x # xs)) =
      read_key x # remdups_adj (dropWhile (\<lambda>y. y = read_key x) (map read_key xs))"
    by (simp add: remdups_adj_Cons')
  also have "dropWhile (\<lambda>y. y = read_key x) (map read_key xs) =
      map read_key (dropWhile (\<lambda>p. read_key p = read_key x) xs)"
    by (simp add: dropWhile_map comp_def)
  finally show ?case using 2 by simp
qed

lemma sorted_filter_takeWhile:
  "sorted (map f (x # xs)) \<Longrightarrow>
   filter (\<lambda>p. f p = f x) xs = takeWhile (\<lambda>p. f p = f x) xs"
proof (induction xs)
  case Nil
  then show ?case by simp
next
  case (Cons y ys)
  show ?case
  proof (cases "f y = f x")
    case True
    then show ?thesis using Cons by simp
  next
    case False
    then have "f x < f y" using Cons.prems by (auto simp add: less_le)
    then have "\<forall>z\<in>set ys. f z \<noteq> f x" using Cons.prems by fastforce
    then have "filter (\<lambda>p. f p = f x) ys = []" by (simp add: filter_empty_conv)
    then show ?thesis using False by simp
  qed
qed

lemma sorted_dropWhile_greater:
  "sorted (map f (x # xs)) \<Longrightarrow> y \<in> set (dropWhile (\<lambda>p. f p = f x) xs) \<Longrightarrow> f x < f y"
proof (induction xs)
  case Nil
  then show ?case by simp
next
  case (Cons z zs)
  show ?case
  proof (cases "f z = f x")
    case True
    then show ?thesis using Cons by simp
  next
    case False
    then have "f x < f z" using Cons.prems(1) by (auto simp add: less_le)
    moreover have "f z \<le> f y" using Cons.prems False by auto
    ultimately show ?thesis by simp
  qed
qed

lemma runs_filter:
  "sorted (map read_key xs) \<Longrightarrow> r \<in> set (runs xs) \<Longrightarrow>
   r = filter (\<lambda>p. read_key p = read_key (hd r)) xs"
proof (induction xs arbitrary: r rule: runs.induct)
  case 1
  then show ?case by simp
next
  case (2 x xs)
  let ?P = "\<lambda>p. read_key p = read_key x"
  have split: "xs = takeWhile ?P xs @ dropWhile ?P xs" by simp
  consider "r = x # takeWhile ?P xs" | "r \<in> set (runs (dropWhile ?P xs))"
    using "2.prems"(2) by auto
  then show ?case
  proof cases
    case 1
    then show ?thesis
      using sorted_filter_takeWhile [OF "2.prems"(1)] by simp
  next
    case 2
    have sd: "sorted (map read_key (dropWhile ?P xs))"
      using "2.prems"(1) by (simp add: sorted_map sorted_wrt_dropWhile)
    note ih = "2.IH" [OF sd 2]
    have "hd r \<in> set (dropWhile ?P xs)"
      using runs_sets [OF 2] by (cases r) auto
    then have ne: "read_key x < read_key (hd r)"
      by (rule sorted_dropWhile_greater [OF "2.prems"(1)])
    have "filter (\<lambda>p. read_key p = read_key (hd r)) (takeWhile ?P xs) = []"
      using ne by (auto simp add: filter_empty_conv dest: set_takeWhileD)
    then have "filter (\<lambda>p. read_key p = read_key (hd r)) xs =
        filter (\<lambda>p. read_key p = read_key (hd r)) (dropWhile ?P xs)"
      using split by (metis filter_append append_Nil)
    then show ?thesis using ih ne by simp
  qed
qed

lemma live_qsort_in_place:
  assumes "qsort_contract (qsort e)"
  shows "live (qsort_in_place e a n) n = qsort e (live a n)"
proof (rule nth_equalityI)
  show "length (live (qsort_in_place e a n) n) = length (qsort e (live a n))"
    using qsort_sorted(3) [OF assms, of "live a n"] by simp
next
  fix i assume "i < length (live (qsort_in_place e a n) n)"
  then show "live (qsort_in_place e a n) n ! i = qsort e (live a n) ! i"
    by (simp add: live_nth qsort_in_place_def)
qed

lemma sorted_remdups_adj_distinct:
  "sorted (ks :: 'a::linorder list) \<Longrightarrow> distinct (remdups_adj ks)"
proof (induction ks rule: remdups_adj.induct)
  case 1
  then show ?case by simp
next
  case (2 x)
  then show ?case by simp
next
  case (3 x y xs)
  show ?case
  proof (cases "x = y")
    case True
    then show ?thesis using 3 by simp
  next
    case False
    then have "x < y" using "3.prems" by (auto simp add: less_le)
    then have "x \<notin> set (y # xs)" using "3.prems" by auto
    then show ?thesis using 3 False by simp
  qed
qed

lemma c_str_append:
  "c_str (a @ b) = (if NUL \<in> set a then c_str a else a @ c_str b)"
proof (cases "NUL \<in> set a")
  case True
  then show ?thesis by (simp add: c_str_def takeWhile_append1 [of NUL a])
next
  case False
  then have "takeWhile (\<lambda>b. b \<noteq> NUL) (a @ b) = a @ takeWhile (\<lambda>b. b \<noteq> NUL) b"
    by (intro takeWhile_append2) auto
  then show ?thesis using False by (simp add: c_str_def)
qed

lemma read_key_terminated: "terminated (kv_key p) \<Longrightarrow> read_key p = key_of p"
  by (simp add: read_key_def key_of_def entry_bytes_def c_str_append terminated_def)

text \<open>
  The key array of a group is a function of the string \<open>strcmp\<close> read at the entry it was
  copied from.
\<close>

lemma strncpy_key_read:
  assumes "length (kv_key p) = n"
  shows "strncpy (kv_key p) n =
    take n (read_key p) @ replicate (n - length (read_key p)) NUL"
proof (cases "NUL \<in> set (kv_key p)")
  case True
  then show ?thesis
    by (simp add: strncpy_def Let_def read_key_def entry_bytes_def c_str_append)
next
  case False
  then have "c_str (kv_key p) = kv_key p"
    by (auto simp add: c_str_def takeWhile_eq_all_conv)
  then show ?thesis
    using False assms
    by (simp add: strncpy_def Let_def read_key_def entry_bytes_def c_str_append)
qed

text \<open>The groups built from sorted entries \<open>ys\<close>: one group per run.\<close>

lemma group_of_run:
  assumes s: "sorted (map read_key ys)" and r: "r \<in> set (runs ys)"
    and len: "\<forall>p\<in>set ys. length (kv_key p) = MAX_KEY_SIZE e"
  shows "out_key (to_group e r) =
      take (MAX_KEY_SIZE e) (read_key (hd r)) @
      replicate (MAX_KEY_SIZE e - length (read_key (hd r))) NUL"
    and "out_value (to_group e r) =
      map (\<lambda>p. strncpy (kv_value p) (MAX_VALUE_SIZE e))
        (filter (\<lambda>p. read_key p = read_key (hd r)) ys)"
    and "out_count (to_group e r) = length (filter (\<lambda>p. read_key p = read_key (hd r)) ys)"
proof -
  have "hd r \<in> set ys" using runs_sets [OF r] by (cases r) auto
  then have "length (kv_key (hd r)) = MAX_KEY_SIZE e" using len by simp
  then show "out_key (to_group e r) =
      take (MAX_KEY_SIZE e) (read_key (hd r)) @
      replicate (MAX_KEY_SIZE e - length (read_key (hd r))) NUL"
    by (simp add: to_group_def strncpy_key_read)
  have f: "r = filter (\<lambda>p. read_key p = read_key (hd r)) ys"
    by (rule runs_filter [OF s r])
  show "out_value (to_group e r) =
      map (\<lambda>p. strncpy (kv_value p) (MAX_VALUE_SIZE e))
        (filter (\<lambda>p. read_key p = read_key (hd r)) ys)"
    using f by (simp add: to_group_def)
  show "out_count (to_group e r) = length (filter (\<lambda>p. read_key p = read_key (hd r)) ys)"
    using f by (simp add: to_group_def)
qed

lemma runs_count:
  assumes "sorted (map read_key ys)"
  shows "length (runs ys) = card (read_key ` set_mset (mset ys))"
proof -
  have "length (runs ys) = length (remdups_adj (map read_key ys))"
    using runs_keys [of ys] by (metis length_map)
  also have "\<dots> = card (set (remdups_adj (map read_key ys)))"
    using distinct_card [OF sorted_remdups_adj_distinct [OF assms]] by simp
  finally show ?thesis by simp
qed

text \<open>
  What the group stage returns: \<open>-1\<close> (\<open>None\<close>) when the group array or the value array
  of one of the groups is not allocated, and otherwise one group per run of the sorted
  buffer.
\<close>

lemma group_stage_result:
  assumes q: "qsort_contract (qsort e)"
  shows "group_stage e s =
    (s\<lparr>inter_kvs := qsort_in_place e (inter_kvs s) (inter_count s)\<rparr>,
     if malloc_groups e \<and>
        (\<forall>g < length (runs (qsort e (live (inter_kvs s) (inter_count s)))).
           malloc_group_value e g)
     then Some (map (to_group e) (runs (qsort e (live (inter_kvs s) (inter_count s)))))
     else None)"
proof -
  let ?ys = "qsort e (live (inter_kvs s) (inter_count s))"
  let ?s' = "s\<lparr>inter_kvs := qsort_in_place e (inter_kvs s) (inter_count s)\<rparr>"
  have ly: "live (inter_kvs ?s') (inter_count ?s') = ?ys"
    using live_qsort_in_place [OF q] by simp
  have "build_groups e ?ys 0 [] =
      (if \<forall>g < length (runs ?ys). malloc_group_value e g
       then Some (map (to_group e) (runs ?ys)) else None)"
    using build_groups_runs [of 0 ?ys e "[]"] by simp
  then show ?thesis
    using ly by (simp add: group_stage_def Let_def)
qed

subsection \<open>The group-by-key stage\<close>

lemma replicate_numeral_Cons: "replicate (numeral k) x = x # replicate (pred_numeral k) x"
  by (simp add: numeral_eq_Suc)

text \<open>
  Claim C1. With key and value fields of 8 bytes, let the map callback emit the key
  \<open>averylongkey\<close> twice, with the values \<open>1\<close> and \<open>2\<close>. Both pairs are stored under the
  key bytes \<open>averylon\<close> with no terminator (the defect of claim C4), so \<open>strcmp\<close> in
  \<open>cmp_kv\<close> and in the grouping loop reads on into the value and finds \<open>averylon1\<close> and
  \<open>averylon2\<close>. The run returns \<open>0\<close> and hands two groups to the reduce stage, both with
  the key \<open>averylon\<close> and one value each: the keys of the groups are not strictly ascending,
  there are two groups for one key, and the value count of each group is 1 where two pairs
  bear its key.
\<close>

theorem group_stage_splits_long_key:
  "\<exists>r. mr_exec env8 [(''averylongkey'', ''1''), (''averylongkey'', ''2'')] (\<lambda>x. [x]) 1
        (\<lambda>g. []) 1 no_output fresh = Inr r \<and>
      status r = 0 \<and>
      live (inter_kvs (globals r)) (inter_count (globals r)) =
        [\<lparr>kv_key = ''averylon'', kv_value = ''1'' @ replicate 7 NUL\<rparr>,
         \<lparr>kv_key = ''averylon'', kv_value = ''2'' @ replicate 7 NUL\<rparr>] \<and>
      groups_built r =
        [\<lparr>out_key = ''averylon'', out_value = [''1'' @ replicate 7 NUL], out_count = 1\<rparr>,
         \<lparr>out_key = ''averylon'', out_value = [''2'' @ replicate 7 NUL], out_count = 1\<rparr>]"
  by (simp add: run_defs replicate_numeral_Cons)

text \<open>
  What does hold of the group stage: on a buffer whose keys are all NUL-terminated in arrays
  of \<open>MAX_KEY_SIZE\<close> bytes, with \<open>qsort\<close> keeping its contract and the group array and the
  value arrays allocated, the buffer is left a permutation of what it held, sorted by the
  byte-wise lexicographic order of the keys; the keys of the groups are strictly ascending
  in that order, there is one group per distinct key, and the value count of a group is the
  number of pairs bearing its key.
\<close>

lemma group_stage_terminated_keys:
  assumes q: "qsort_contract (qsort e)"
    and wf: "\<forall>p\<in>set (live (inter_kvs s) (inter_count s)).
               length (kv_key p) = MAX_KEY_SIZE e \<and> terminated (kv_key p)"
    and mg: "malloc_groups e" and mv: "\<forall>g. malloc_group_value e g"
  shows "\<exists>s' gs. group_stage e s = (s', Some gs) \<and>
      inter_count s' = inter_count s \<and>
      mset (live (inter_kvs s') (inter_count s')) = mset (live (inter_kvs s) (inter_count s)) \<and>
      sorted (map key_of (live (inter_kvs s') (inter_count s'))) \<and>
      sorted_wrt (<) (map (\<lambda>g. c_str (out_key g)) gs) \<and>
      length gs = card (key_of ` set (live (inter_kvs s) (inter_count s))) \<and>
      (\<forall>g\<in>set gs.
         out_count g = length (out_value g) \<and>
         out_count g =
           length (filter (\<lambda>p. key_of p = c_str (out_key g))
                     (live (inter_kvs s) (inter_count s))))"
proof -
  let ?xs = "live (inter_kvs s) (inter_count s)"
  let ?ys = "qsort e ?xs"
  let ?s' = "s\<lparr>inter_kvs := qsort_in_place e (inter_kvs s) (inter_count s)\<rparr>"
  let ?gs = "map (to_group e) (runs ?ys)"
  have ly: "live (inter_kvs ?s') (inter_count ?s') = ?ys"
    using live_qsort_in_place [OF q] by simp
  have sr: "sorted (map read_key ?ys)" and my: "mset ?ys = mset ?xs" and sety: "set ?ys = set ?xs"
    using qsort_sorted [OF q, of ?xs] by simp_all
  have rk: "read_key p = key_of p" if "p \<in> set ?ys" for p
    using that wf sety by (simp add: read_key_terminated)
  have rkx: "read_key p = key_of p" if "p \<in> set ?xs" for p
    using that wf by (simp add: read_key_terminated)
  have mk: "map read_key ?ys = map key_of ?ys"
    using rk by (intro map_cong refl) simp
  have sy: "sorted (map key_of ?ys)" using sr mk by simp
  have len: "\<forall>p\<in>set ?ys. length (kv_key p) = MAX_KEY_SIZE e"
    using wf sety by simp
  have gst: "group_stage e s = (?s', Some ?gs)"
    using group_stage_result [OF q, of s] mg mv by simp
  have hd_in: "hd r \<in> set ?ys" if "r \<in> set (runs ?ys)" for r
    using runs_sets [OF that] by (cases r) auto
  have key: "c_str (out_key (to_group e r)) = key_of (hd r)" if r: "r \<in> set (runs ?ys)" for r
  proof -
    have "length (key_of (hd r)) \<le> MAX_KEY_SIZE e"
      using hd_in [OF r] len c_str_length [of "kv_key (hd r)"] by (auto simp add: key_of_def)
    then show ?thesis by (simp add: to_group_def c_str_strncpy key_of_def)
  qed
  have "map (\<lambda>g. c_str (out_key g)) ?gs = map (\<lambda>r. read_key (hd r)) (runs ?ys)"
    using key rk hd_in by simp
  then have keys: "map (\<lambda>g. c_str (out_key g)) ?gs = remdups_adj (map key_of ?ys)"
    using runs_keys [of ?ys] mk by simp
  have strict: "sorted_wrt (<) (map (\<lambda>g. c_str (out_key g)) ?gs)"
    unfolding keys strict_sorted_iff
    using sy by (simp add: sorted_remdups_adj_distinct)
  have "length ?gs = length (remdups_adj (map key_of ?ys))"
    using keys by (metis length_map)
  also have "\<dots> = card (set (remdups_adj (map key_of ?ys)))"
    using distinct_card [OF sorted_remdups_adj_distinct [OF sy]] by simp
  also have "\<dots> = card (key_of ` set ?xs)"
    using sety by simp
  finally have card: "length ?gs = card (key_of ` set ?xs)" .
  have each: "out_count g = length (out_value g) \<and>
      out_count g = length (filter (\<lambda>p. key_of p = c_str (out_key g)) ?xs)"
    if "g \<in> set ?gs" for g
  proof -
    from that obtain r where r: "r \<in> set (runs ?ys)" and g: "g = to_group e r" by auto
    have "filter (\<lambda>p. read_key p = read_key (hd r)) ?ys =
        filter (\<lambda>p. key_of p = key_of (hd r)) ?ys"
      using rk hd_in [OF r] by (intro filter_cong refl) simp
    then have c: "out_count g = length (filter (\<lambda>p. key_of p = c_str (out_key g)) ?ys)"
      using group_of_run(3) [OF sr r len] key [OF r] g by simp
    have "length (filter (\<lambda>p. key_of p = c_str (out_key g)) ?ys) =
        length (filter (\<lambda>p. key_of p = c_str (out_key g)) ?xs)"
      using my by (metis mset_filter size_mset)
    then show ?thesis
      using c g by (simp add: to_group_def)
  qed
  show ?thesis
  proof (intro exI conjI ballI)
    show "group_stage e s = (?s', Some ?gs)" by (rule gst)
    show "inter_count ?s' = inter_count s" by simp
    show "mset (live (inter_kvs ?s') (inter_count ?s')) = mset ?xs"
      using ly my by simp
    show "sorted (map key_of (live (inter_kvs ?s') (inter_count ?s')))"
      using ly sy by simp
    show "sorted_wrt (<) (map (\<lambda>g. c_str (out_key g)) ?gs)" by (rule strict)
    show "length ?gs = card (key_of ` set ?xs)" by (rule card)
    show "out_count g = length (out_value g)" if "g \<in> set ?gs" for g
      using each [OF that] by simp
    show "out_count g = length (filter (\<lambda>p. key_of p = c_str (out_key g)) ?xs)"
      if "g \<in> set ?gs" for g
      using each [OF that] by simp
  qed
qed

subsection \<open>The packer\<close>

lemma pack_loop_records:
  "\<forall>i < length fs. malloc_output_value e i \<Longrightarrow> i \<le> length fs \<Longrightarrow>
   pack_loop e fs i recs = Inr (recs @ map (to_record e) (drop i fs))"
proof (induction e fs i recs rule: pack_loop.induct)
  case (1 e fs i recs)
  show ?case
  proof (cases "i < length fs")
    case False
    then have "pack_loop e fs i recs = Inr recs" by (subst pack_loop.simps) simp
    then show ?thesis using False by simp
  next
    case True
    then have d: "drop i fs = fs ! i # drop (Suc i) fs"
      by (simp add: Cons_nth_drop_Suc)
    have ok: "malloc_output_value e i" using "1.prems"(1) True by simp
    have "pack_loop e fs i recs = pack_loop e fs (i + 1) (recs @ [to_record e (fs ! i)])"
      using True ok by (subst pack_loop.simps) (simp add: to_record_def)
    also have "\<dots> = Inr ((recs @ [to_record e (fs ! i)]) @ map (to_record e) (drop (i + 1) fs))"
      using "1.IH" [OF True _ "1.prems"(1)] True ok by (simp add: to_record_def)
    finally show ?thesis by (simp add: d)
  qed
qed

text \<open>
  Claim C2. Let the final buffer hold any sequence of pairs whose keys are NUL-terminated
  strings in arrays of \<open>MAX_KEY_SIZE\<close> bytes, let \<open>qsort\<close> keep its contract and let the
  output array and the value of every output record be allocated, so that the run reaches
  the copy loop and completes it. Then the packer returns \<open>0\<close>; the output has as many
  records as the final buffer has entries, and \<open>output->count\<close> is that number; record \<open>i\<close>
  is made of entry \<open>i\<close> of the sorted buffer, with one value and count 1; as a multiset the
  records are the images of the entries the buffer held, so nothing is merged or dropped;
  the keys of the records are non-decreasing in the byte-wise lexicographic order, so
  records with equal keys are adjacent.
\<close>

theorem pack_stage_one_record_per_entry:
  assumes q: "qsort_contract (qsort e)"
    and wf: "\<forall>p\<in>set (live (final_kvs s) (final_count s)).
               length (kv_key p) = MAX_KEY_SIZE e \<and> terminated (kv_key p)"
    and mo: "malloc_output e" and mv: "\<forall>i < final_count s. malloc_output_value e i"
  shows "\<exists>s' recs. pack_stage e out s =
        Inr (0, \<lparr>kv_lst = Some recs, lst_count = final_count s\<rparr>, s') \<and>
      length recs = final_count s \<and>
      final_count s' = final_count s \<and>
      mset (live (final_kvs s') (final_count s')) = mset (live (final_kvs s) (final_count s)) \<and>
      recs = map (to_record e) (live (final_kvs s') (final_count s')) \<and>
      mset recs = image_mset (to_record e) (mset (live (final_kvs s) (final_count s))) \<and>
      (\<forall>r\<in>set recs. out_count r = 1 \<and> length (out_value r) = 1) \<and>
      sorted (map (\<lambda>r. c_str (out_key r)) recs) \<and>
      (\<forall>i j k. i \<le> k \<and> k \<le> j \<and> j < length recs \<and>
          c_str (out_key (recs ! i)) = c_str (out_key (recs ! j)) \<longrightarrow>
          c_str (out_key (recs ! k)) = c_str (out_key (recs ! i)))"
proof -
  let ?xs = "live (final_kvs s) (final_count s)"
  let ?ys = "qsort e ?xs"
  let ?s' = "s\<lparr>final_kvs := qsort_in_place e (final_kvs s) (final_count s)\<rparr>"
  let ?recs = "map (to_record e) ?ys"
  have ly: "live (final_kvs ?s') (final_count ?s') = ?ys"
    using live_qsort_in_place [OF q] by simp
  have sr: "sorted (map read_key ?ys)" and my: "mset ?ys = mset ?xs"
    and leny: "length ?ys = final_count s" and sety: "set ?ys = set ?xs"
    using qsort_sorted [OF q, of ?xs] by simp_all
  have mk: "map read_key ?ys = map key_of ?ys"
    using wf sety by (intro map_cong refl read_key_terminated) simp
  have sy: "sorted (map key_of ?ys)"
    unfolding mk [symmetric] by (rule sr)
  have "pack_loop e ?ys 0 [] = Inr ?recs"
    using pack_loop_records [of ?ys e 0 "[]"] mv leny by simp
  then have ps: "pack_stage e out s =
      Inr (0, \<lparr>kv_lst = Some ?recs, lst_count = final_count s\<rparr>, ?s')"
    using mo ly by (simp add: pack_stage_def Let_def)
  have key: "c_str (out_key (to_record e p)) = key_of p" if "p \<in> set ?ys" for p
  proof -
    have "length (key_of p) \<le> MAX_KEY_SIZE e"
      using that wf sety c_str_length [of "kv_key p"] by (auto simp add: key_of_def)
    then show ?thesis by (simp add: to_record_def c_str_strncpy key_of_def)
  qed
  then have keys: "map (\<lambda>r. c_str (out_key r)) ?recs = map key_of ?ys"
    by simp
  have srt: "sorted (map (\<lambda>r. c_str (out_key r)) ?recs)"
    unfolding keys by (rule sy)
  have adj: "c_str (out_key (?recs ! k)) = c_str (out_key (?recs ! i))"
    if "i \<le> k" "k \<le> j" "j < length ?recs"
      "c_str (out_key (?recs ! i)) = c_str (out_key (?recs ! j))" for i j k
  proof -
    let ?ks = "map (\<lambda>r. c_str (out_key r)) ?recs"
    have lk: "k < length ?ks" "j < length ?ks" "i < length ?ks" using that by simp_all
    have n: "?ks ! m = c_str (out_key (?recs ! m))" if "m < length ?ks" for m
      using that by (simp only: nth_map length_map)
    have "?ks ! i \<le> ?ks ! k" by (rule sorted_nth_mono [OF srt \<open>i \<le> k\<close> lk(1)])
    moreover have "?ks ! k \<le> ?ks ! j" by (rule sorted_nth_mono [OF srt \<open>k \<le> j\<close> lk(2)])
    moreover have "?ks ! i = ?ks ! j" using that(4) n [OF lk(3)] n [OF lk(2)] by simp
    ultimately have "?ks ! k = ?ks ! i" by simp
    then show ?thesis using n [OF lk(1)] n [OF lk(3)] by simp
  qed
  show ?thesis
  proof (intro exI conjI ballI allI impI)
    show "pack_stage e out s =
        Inr (0, \<lparr>kv_lst = Some ?recs, lst_count = final_count s\<rparr>, ?s')"
      by (rule ps)
    show "length ?recs = final_count s" using leny by simp
    show "final_count ?s' = final_count s" by simp
    show "mset (live (final_kvs ?s') (final_count ?s')) = mset ?xs" using ly my by simp
    show "?recs = map (to_record e) (live (final_kvs ?s') (final_count ?s'))" using ly by simp
    show "mset ?recs = image_mset (to_record e) (mset ?xs)" using my by (metis mset_map)
    show "out_count r = 1" if "r \<in> set ?recs" for r using that by (auto simp add: to_record_def)
    show "length (out_value r) = 1" if "r \<in> set ?recs" for r
      using that by (auto simp add: to_record_def)
    show "sorted (map (\<lambda>r. c_str (out_key r)) ?recs)" by (rule srt)
    show "c_str (out_key (?recs ! k)) = c_str (out_key (?recs ! i))"
      if "i \<le> k \<and> k \<le> j \<and> j < length ?recs \<and>
          c_str (out_key (?recs ! i)) = c_str (out_key (?recs ! j))" for i j k
      using adj [of i k j] that by blast
  qed
qed

theorem pack_stage_one_record_per_entry_witness:
  "\<exists>s' recs. pack_stage env8 no_output
       (snd (emit_all_f env8 0 [(''b'', ''2''), (''a'', ''1''), (''b'', ''3'')] fresh)) =
       Inr (0, \<lparr>kv_lst = Some recs, lst_count = 3\<rparr>, s') \<and>
     length recs = 3 \<and>
     map (\<lambda>r. c_str (out_key r)) recs = [''a'', ''b'', ''b''] \<and>
     mset (map (\<lambda>r. map c_str (out_value r)) recs) = {#[''1''], [''2''], [''3'']#}"
proof -
  let ?s = "snd (emit_all_f env8 0 [(''b'', ''2''), (''a'', ''1''), (''b'', ''3'')] fresh)"
  have q: "qsort_contract (qsort env8)"
    using isort_kv_contract by (simp add: env8_def)
  have l: "live (final_kvs ?s) (final_count ?s) =
      [stored env8 ''b'' ''2'', stored env8 ''a'' ''1'', stored env8 ''b'' ''3'']"
    and c: "final_count ?s = 3"
    by (simp_all add: mr_emit_f_def env8_def fresh_def Let_def live_def stored_def)
  have wf: "\<forall>p\<in>set (live (final_kvs ?s) (final_count ?s)).
               length (kv_key p) = MAX_KEY_SIZE env8 \<and> terminated (kv_key p)"
    unfolding l by (simp add: stored_def strncpy_def c_str_def terminated_def env8_def)
  have mo: "malloc_output env8" and mv: "\<forall>i < final_count ?s. malloc_output_value env8 i"
    by (simp_all add: env8_def)
  from pack_stage_one_record_per_entry [OF q wf mo mv, of no_output]
  obtain s' recs where p: "pack_stage env8 no_output ?s =
        Inr (0, \<lparr>kv_lst = Some recs, lst_count = final_count ?s\<rparr>, s')"
    and n: "length recs = final_count ?s"
    and m: "mset recs = image_mset (to_record env8) (mset (live (final_kvs ?s) (final_count ?s)))"
    and k: "sorted (map (\<lambda>r. c_str (out_key r)) recs)"
    by blast
  have "mset (map (\<lambda>r. c_str (out_key r)) recs) = {#''b'', ''a'', ''b''#}"
    using m unfolding l
    by (simp add: to_record_def stored_def strncpy_def c_str_def env8_def
        flip: mset_map [of "\<lambda>r. c_str (out_key r)" recs])
  moreover have "mset [''a'', ''b'', ''b''] = {#''b'', ''a'', ''b''#}" by simp
  moreover have "sorted [''a'', ''b'', ''b'']" by simp
  ultimately have keys: "map (\<lambda>r. c_str (out_key r)) recs = [''a'', ''b'', ''b'']"
    using k by (metis properties_for_sort)
  have vals: "mset (map (\<lambda>r. map c_str (out_value r)) recs) = {#[''1''], [''2''], [''3'']#}"
    using m unfolding l
    by (simp add: to_record_def stored_def strncpy_def c_str_def env8_def
        flip: mset_map [of "\<lambda>r. map c_str (out_value r)" recs])
  show ?thesis
    using p n keys vals c by (intro exI [of _ s'] exI [of _ recs]) simp
qed

subsection \<open>One map worker or many\<close>

lemma group_views_sorted:
  assumes s: "sorted (map read_key ys)"
    and len: "\<forall>p\<in>set ys. length (kv_key p) = MAX_KEY_SIZE e"
  shows "(\<lambda>g. (out_key g, mset (out_value g))) ` set (map (to_group e) (runs ys)) =
    (\<lambda>k. (take (MAX_KEY_SIZE e) k @ replicate (MAX_KEY_SIZE e - length k) NUL,
           image_mset (\<lambda>p. strncpy (kv_value p) (MAX_VALUE_SIZE e))
             (filter_mset (\<lambda>p. read_key p = k) (mset ys)))) ` read_key ` set_mset (mset ys)"
proof -
  let ?V = "\<lambda>g. (out_key g, mset (out_value g))"
  let ?F = "\<lambda>k. (take (MAX_KEY_SIZE e) k @ replicate (MAX_KEY_SIZE e - length k) NUL,
           image_mset (\<lambda>p. strncpy (kv_value p) (MAX_VALUE_SIZE e))
             (filter_mset (\<lambda>p. read_key p = k) (mset ys)))"
  have v: "?V (to_group e r) = ?F (read_key (hd r))" if r: "r \<in> set (runs ys)" for r
  proof -
    note g = group_of_run [OF s r len]
    have "mset (out_value (to_group e r)) =
        image_mset (\<lambda>p. strncpy (kv_value p) (MAX_VALUE_SIZE e))
             (filter_mset (\<lambda>p. read_key p = read_key (hd r)) (mset ys))"
      using g(2) by simp
    then show ?thesis using g(1) by simp
  qed
  have "?V ` set (map (to_group e) (runs ys)) = (\<lambda>r. ?F (read_key (hd r))) ` set (runs ys)"
    using v by (auto simp add: image_iff)
  also have "\<dots> = ?F ` set (map (\<lambda>r. read_key (hd r)) (runs ys))"
    by (simp add: image_image)
  also have "\<dots> = ?F ` read_key ` set_mset (mset ys)"
    by (simp add: runs_keys)
  finally show ?thesis .
qed

lemma map_stage_buffer:
  assumes "\<forall>n. realloc_inter e n"
  shows "live (inter_kvs (snd (map_stage e input map_fn mc s)))
           (inter_count (snd (map_stage e input map_fn mc s))) =
         live (inter_kvs s) (inter_count s) @
         map (\<lambda>(k, v). stored e k v) (stage_calls (map_sched e) input map_fn mc)"
proof -
  let ?cs = "stage_calls (map_sched e) input map_fn mc"
  obtain rs s' where m: "emit_all_i e 0 ?cs s = (rs, s')" by fastforce
  have "kept e ?cs rs = map (\<lambda>(k, v). stored e k v) ?cs"
    using emit_all_i_spec [OF m] emit_all_i_ok [OF assms m] by (simp add: kept_all)
  then show ?thesis
    using emit_all_i_spec [OF m] m by (simp add: map_stage_def)
qed


text \<open>The groups a run that returns has handed to the reduce stage.\<close>

lemma mr_exec_groups_built:
  assumes "mr_exec e input map_fn mc reduce_fn rc out s0 = Inr r"
  shows "groups_built r =
    (if inter_count (snd (map_stage e input map_fn mc
           (s0\<lparr>inter_count := 0, final_count := 0\<rparr>))) = 0 then []
     else case snd (group_stage e (snd (map_stage e input map_fn mc
           (s0\<lparr>inter_count := 0, final_count := 0\<rparr>)))) of
        None \<Rightarrow> [] | Some gs \<Rightarrow> gs)"
  using assms
  by (auto simp add: mr_exec_def Let_def split: prod.splits option.splits sum.splits if_splits)

lemma mr_exec_returns:
  assumes "malloc_groups e" and "\<forall>g. malloc_group_value e g"
    and "malloc_output e" and "\<forall>i. malloc_output_value e i"
  shows "\<exists>r. mr_exec e input map_fn mc reduce_fn rc out s0 = Inr r \<and> status r = 0"
proof -
  let ?s1 = "s0\<lparr>inter_count := 0, final_count := 0\<rparr>"
  obtain rs s2 where m: "map_stage e input map_fn mc ?s1 = (rs, s2)"
    by fastforce
  show ?thesis
  proof (cases "inter_count s2 = 0")
    case True
    then show ?thesis using m by (simp add: mr_exec_def Let_def)
  next
    case False
    let ?s3 = "s2\<lparr>inter_kvs := qsort_in_place e (inter_kvs s2) (inter_count s2)\<rparr>"
    obtain gs where g: "build_groups e (live (inter_kvs ?s3) (inter_count ?s3)) 0 [] = Some gs"
      using build_groups_allocated [OF assms(2)] by blast
    then have gst: "group_stage e s2 = (?s3, Some gs)"
      using assms(1) by (simp add: group_stage_def Let_def)
    obtain rf s4 where r: "reduce_stage e gs reduce_fn rc ?s3 = (rf, s4)"
      by fastforce
    let ?s5 = "s4\<lparr>final_kvs := qsort_in_place e (final_kvs s4) (final_count s4)\<rparr>"
    obtain recs where p: "pack_loop e (live (final_kvs ?s5) (final_count ?s5)) 0 [] = Inr recs"
      using pack_loop_allocated [OF assms(4)] by blast
    then have "pack_stage e out s4 =
        Inr (0, out\<lparr>kv_lst := Some recs, lst_count := final_count ?s5\<rparr>, ?s5)"
      using assms(3) by (simp add: pack_stage_def Let_def)
    then show ?thesis
      using False m gst r by (simp add: mr_exec_def Let_def)
  qed
qed

text \<open>
  Claim C9, as stated, fails. The first growth of the intermediate buffer fails and the
  later ones succeed; the map callback emits its record, the input is \<open>(b,1), (a,2)\<close>. With
  one map worker the call for \<open>b\<close> comes first and is the one refused: the reduce stage is
  handed the group \<open>a\<close>. With two workers, and the second worker taking the lock first, the
  call for \<open>a\<close> is refused: the reduce stage is handed the group \<open>b\<close>. Both runs return \<open>0\<close>.
\<close>

theorem map_worker_count_counterexample:
  "\<exists>r1 rW.
     mr_exec (env8\<lparr>realloc_inter := (\<lambda>n. 0 < n)\<rparr>) [(''b'', ''1''), (''a'', ''2'')]
       (\<lambda>x. [x]) 1 (\<lambda>g. []) 1 no_output fresh = Inr r1 \<and>
     mr_exec (env8\<lparr>realloc_inter := (\<lambda>n. 0 < n), map_sched := [1]\<rparr>)
       [(''b'', ''1''), (''a'', ''2'')] (\<lambda>x. [x]) 2 (\<lambda>g. []) 1 no_output fresh = Inr rW \<and>
     status r1 = 0 \<and> status rW = 0 \<and>
     groups_built r1 =
       [\<lparr>out_key = ''a'' @ replicate 7 NUL, out_value = [''2'' @ replicate 7 NUL],
         out_count = 1\<rparr>] \<and>
     groups_built rW =
       [\<lparr>out_key = ''b'' @ replicate 7 NUL, out_value = [''1'' @ replicate 7 NUL],
         out_count = 1\<rparr>] \<and>
     (\<lambda>g. (out_key g, mset (out_value g))) ` set (groups_built r1) \<noteq>
     (\<lambda>g. (out_key g, mset (out_value g))) ` set (groups_built rW)"
  by (simp add: run_defs replicate_numeral_Cons tasks_of_def slices.simps worker_items_def)

text \<open>
  Claim C9, amended. Take any input and any map callback given by the emit calls it makes
  on a record, let \<open>qsort\<close> keep its contract, and let no growth of the intermediate buffer
  fail during the map stage. Run the map stage once with one worker and once with any
  number \<open>W\<close> of workers under any schedule of their emit calls. The two intermediate
  buffers are permutations of each other. The group stage then ends the same way on both:
  it fails on both or it returns, on both, the same set of (key, multiset of values) groups
  in the same number. So two runs of \<open>mr_exec\<close> that return have handed the same set of
  groups to the reduce stage, and when \<open>mr_exec\<close>'s own allocations succeed both runs do
  return, with status \<open>0\<close>.
\<close>

theorem map_worker_count_invariance:
  fixes e :: env and sched :: "nat list" and s0 :: engine
    and input :: "'i list" and map_fn :: "'i \<Rightarrow> emits" and W :: nat
  assumes q: "qsort_contract (qsort e)"
    and growth: "\<forall>n. realloc_inter e n"
  defines "eW \<equiv> e\<lparr>map_sched := sched\<rparr>"
    and "s \<equiv> s0\<lparr>inter_count := 0, final_count := 0\<rparr>"
  defines "a \<equiv> snd (map_stage e input map_fn 1 s)"
    and "b \<equiv> snd (map_stage eW input map_fn W s)"
    and "views \<equiv> \<lambda>gs :: mr_out_kv list. (\<lambda>g. (out_key g, mset (out_value g))) ` set gs"
  shows "mset (live (inter_kvs a) (inter_count a)) = mset (live (inter_kvs b) (inter_count b)) \<and>
    map_option views (snd (group_stage e a)) = map_option views (snd (group_stage eW b)) \<and>
    map_option length (snd (group_stage e a)) = map_option length (snd (group_stage eW b)) \<and>
    (\<forall>r1 rW.
       mr_exec e input map_fn 1 reduce_fn rc out s0 = Inr r1 \<and>
       mr_exec eW input map_fn W reduce_fn rc out s0 = Inr rW \<longrightarrow>
       views (groups_built r1) = views (groups_built rW) \<and>
       length (groups_built r1) = length (groups_built rW)) \<and>
    (malloc_groups e \<and> (\<forall>g. malloc_group_value e g) \<and>
     malloc_output e \<and> (\<forall>i. malloc_output_value e i) \<longrightarrow>
       (\<exists>r1 rW.
          mr_exec e input map_fn 1 reduce_fn rc out s0 = Inr r1 \<and>
          mr_exec eW input map_fn W reduce_fn rc out s0 = Inr rW \<and>
          status r1 = 0 \<and> status rW = 0))"
proof -
  let ?eW = "e\<lparr>map_sched := sched\<rparr>"
  let ?s = "s0\<lparr>inter_count := 0, final_count := 0\<rparr>"
  let ?a = "snd (map_stage e input map_fn 1 ?s)"
  let ?b = "snd (map_stage ?eW input map_fn W ?s)"
  let ?views = "\<lambda>gs :: mr_out_kv list. (\<lambda>g. (out_key g, mset (out_value g))) ` set gs"
  let ?xs = "live (inter_kvs ?a) (inter_count ?a)"
  let ?zs = "live (inter_kvs ?b) (inter_count ?b)"
  let ?c1 = "stage_calls (map_sched e) input map_fn 1"
  let ?cW = "stage_calls sched input map_fn W"
  have st: "stored ?eW = stored e" by (simp add: stored_def fun_eq_iff)
  have tg: "to_group ?eW = to_group e" by (simp add: to_group_def fun_eq_iff)
  have q': "qsort_contract (qsort ?eW)" using q by simp
  have growth': "\<forall>n. realloc_inter ?eW n" using growth by simp
  have xs: "?xs = map (\<lambda>(k, v). stored e k v) ?c1"
    using map_stage_buffer [OF growth, of input map_fn 1 ?s] by simp
  have zs: "?zs = map (\<lambda>(k, v). stored e k v) ?cW"
    using map_stage_buffer [OF growth', of input map_fn W ?s] unfolding st by simp
  have "mset ?c1 = mset ?cW" by (simp add: stage_calls_mset)
  then have perm: "mset ?xs = mset ?zs"
    unfolding xs zs by (metis mset_map)
  then have cnt: "inter_count ?a = inter_count ?b"
    using mset_eq_length [OF perm] by simp
  have m: "mset (qsort e ?xs) = mset (qsort e ?zs)"
    using qsort_sorted(2) [OF q] perm by simp
  have sx: "sorted (map read_key (qsort e ?xs))" and sz: "sorted (map read_key (qsort e ?zs))"
    using qsort_sorted(1) [OF q] by simp_all
  have "\<forall>p\<in>set ?xs. length (kv_key p) = MAX_KEY_SIZE e"
    unfolding xs by (auto simp add: stored_def strncpy_length)
  then have lx: "\<forall>p\<in>set (qsort e ?xs). length (kv_key p) = MAX_KEY_SIZE e"
    using qsort_sorted(4) [OF q, of ?xs] by simp
  then have lz: "\<forall>p\<in>set (qsort e ?zs). length (kv_key p) = MAX_KEY_SIZE e"
    using mset_eq_setD [OF m] by simp
  define R1 where "R1 = runs (qsort e ?xs)"
  define R2 where "R2 = runs (qsort e ?zs)"
  have n: "length R1 = length R2"
    unfolding R1_def R2_def runs_count [OF sx] runs_count [OF sz] m ..
  have v: "?views (map (to_group e) R1) = ?views (map (to_group e) R2)"
    unfolding R1_def R2_def group_views_sorted [OF sx lx] group_views_sorted [OF sz lz] m ..
  have ga: "snd (group_stage e ?a) =
      (if malloc_groups e \<and> (\<forall>g < length R1. malloc_group_value e g)
       then Some (map (to_group e) R1) else None)"
    unfolding R1_def by (simp add: group_stage_result [OF q])
  have gb: "snd (group_stage ?eW ?b) =
      (if malloc_groups e \<and> (\<forall>g < length R1. malloc_group_value e g)
       then Some (map (to_group e) R2) else None)"
    unfolding n unfolding R2_def group_stage_result [OF q', of ?b] tg by simp
  have views_eq: "map_option ?views (snd (group_stage e ?a)) =
      map_option ?views (snd (group_stage ?eW ?b))"
    unfolding ga gb using v by simp
  have len_eq: "map_option length (snd (group_stage e ?a)) =
      map_option length (snd (group_stage ?eW ?b))"
    unfolding ga gb using n by simp
  have built: "?views (groups_built r1) = ?views (groups_built rW) \<and>
      length (groups_built r1) = length (groups_built rW)"
    if r1: "mr_exec e input map_fn 1 reduce_fn rc out s0 = Inr r1"
      and rW: "mr_exec ?eW input map_fn W reduce_fn rc out s0 = Inr rW" for r1 rW
  proof -
    have b1: "groups_built r1 =
        (if inter_count ?a = 0 then []
         else case snd (group_stage e ?a) of None \<Rightarrow> [] | Some gs \<Rightarrow> gs)"
      by (rule mr_exec_groups_built [OF r1])
    have bW: "groups_built rW =
        (if inter_count ?b = 0 then []
         else case snd (group_stage ?eW ?b) of None \<Rightarrow> [] | Some gs \<Rightarrow> gs)"
      by (rule mr_exec_groups_built [OF rW])
    show ?thesis
    proof (cases "inter_count ?a = 0 \<or>
        \<not> (malloc_groups e \<and> (\<forall>g < length R1. malloc_group_value e g))")
      case True
      then have "groups_built r1 = []" unfolding b1 ga by auto
      moreover have "groups_built rW = []" unfolding bW gb using True cnt by auto
      ultimately show ?thesis by simp
    next
      case False
      then have "groups_built r1 = map (to_group e) R1" unfolding b1 ga by auto
      moreover have "groups_built rW = map (to_group e) R2"
        unfolding bW gb using False cnt by auto
      ultimately show ?thesis using v n by simp
    qed
  qed
  have ret: "\<exists>r1 rW.
          mr_exec e input map_fn 1 reduce_fn rc out s0 = Inr r1 \<and>
          mr_exec ?eW input map_fn W reduce_fn rc out s0 = Inr rW \<and>
          status r1 = 0 \<and> status rW = 0"
    if ok: "malloc_groups e \<and> (\<forall>g. malloc_group_value e g) \<and>
        malloc_output e \<and> (\<forall>i. malloc_output_value e i)"
  proof -
    have ok': "malloc_groups ?eW" "\<forall>g. malloc_group_value ?eW g"
      "malloc_output ?eW" "\<forall>i. malloc_output_value ?eW i"
      using ok by simp_all
    obtain r1 where "mr_exec e input map_fn 1 reduce_fn rc out s0 = Inr r1 \<and> status r1 = 0"
      using mr_exec_returns [of e input map_fn 1 reduce_fn rc out s0] ok by blast
    moreover obtain rW where "mr_exec ?eW input map_fn W reduce_fn rc out s0 = Inr rW \<and>
        status rW = 0"
      using mr_exec_returns [OF ok', of input map_fn W reduce_fn rc out s0] by blast
    ultimately show ?thesis by blast
  qed
  show ?thesis
    unfolding a_def b_def eW_def s_def views_def
    using perm views_eq len_eq built ret by blast
qed

theorem map_worker_count_invariance_witness:
  "\<exists>r1 rW.
      mr_exec env8 [(''b'', ''1''), (''averylongkey'', ''2''), (''b'', ''3'')] (\<lambda>x. [x]) 1
        (\<lambda>g. []) 1 no_output fresh = Inr r1 \<and>
      mr_exec (env8\<lparr>map_sched := [1, 0, 1]\<rparr>)
        [(''b'', ''1''), (''averylongkey'', ''2''), (''b'', ''3'')] (\<lambda>x. [x]) 2
        (\<lambda>g. []) 1 no_output fresh = Inr rW \<and>
      status r1 = 0 \<and> status rW = 0 \<and>
      (\<lambda>g. (out_key g, mset (out_value g))) ` set (groups_built r1) =
      (\<lambda>g. (out_key g, mset (out_value g))) ` set (groups_built rW) \<and>
      groups_built r1 =
        [\<lparr>out_key = ''averylon'', out_value = [''2'' @ replicate 7 NUL], out_count = 1\<rparr>,
         \<lparr>out_key = ''b'' @ replicate 7 NUL,
           out_value = [''1'' @ replicate 7 NUL, ''3'' @ replicate 7 NUL], out_count = 2\<rparr>] \<and>
      groups_built rW =
        [\<lparr>out_key = ''averylon'', out_value = [''2'' @ replicate 7 NUL], out_count = 1\<rparr>,
         \<lparr>out_key = ''b'' @ replicate 7 NUL,
           out_value = [''3'' @ replicate 7 NUL, ''1'' @ replicate 7 NUL], out_count = 2\<rparr>]"
proof -
  let ?inp = "[(''b'', ''1''), (''averylongkey'', ''2''), (''b'', ''3'')]"
  have q: "qsort_contract (qsort env8)"
    using isort_kv_contract by (simp add: env8_def)
  have g: "\<forall>n. realloc_inter env8 n"
    by (simp add: env8_def)
  have ok: "malloc_groups env8 \<and> (\<forall>g. malloc_group_value env8 g) \<and>
     malloc_output env8 \<and> (\<forall>i. malloc_output_value env8 i)"
    by (simp add: env8_def)
  note t = map_worker_count_invariance [OF q g, where sched = "[1, 0, 1]" and input = ?inp
      and map_fn = "\<lambda>x. [x]" and W = 2 and ?s0.0 = fresh and reduce_fn = "\<lambda>g. []" and rc = 1
      and out = no_output]
  from t ok obtain r1 rW where
    r1: "mr_exec env8 ?inp (\<lambda>x. [x]) 1 (\<lambda>g. []) 1 no_output fresh = Inr r1"
    and rW: "mr_exec (env8\<lparr>map_sched := [1, 0, 1]\<rparr>) ?inp (\<lambda>x. [x]) 2 (\<lambda>g. []) 1
        no_output fresh = Inr rW"
    and s: "status r1 = 0" "status rW = 0"
    by blast
  from t r1 rW have v: "(\<lambda>g. (out_key g, mset (out_value g))) ` set (groups_built r1) =
      (\<lambda>g. (out_key g, mset (out_value g))) ` set (groups_built rW)"
    by blast
  have e1: "(case mr_exec env8 ?inp (\<lambda>x. [x]) 1 (\<lambda>g. []) 1 no_output fresh of
         Inr r \<Rightarrow> groups_built r | Inl f \<Rightarrow> []) =
        [\<lparr>out_key = ''averylon'', out_value = [''2'' @ replicate 7 NUL], out_count = 1\<rparr>,
         \<lparr>out_key = ''b'' @ replicate 7 NUL,
           out_value = [''1'' @ replicate 7 NUL, ''3'' @ replicate 7 NUL], out_count = 2\<rparr>]"
    by (simp add: run_defs replicate_numeral_Cons)
  have eW: "(case mr_exec (env8\<lparr>map_sched := [1, 0, 1]\<rparr>) ?inp (\<lambda>x. [x]) 2 (\<lambda>g. []) 1
          no_output fresh of
         Inr r \<Rightarrow> groups_built r | Inl f \<Rightarrow> []) =
        [\<lparr>out_key = ''averylon'', out_value = [''2'' @ replicate 7 NUL], out_count = 1\<rparr>,
         \<lparr>out_key = ''b'' @ replicate 7 NUL,
           out_value = [''3'' @ replicate 7 NUL, ''1'' @ replicate 7 NUL], out_count = 2\<rparr>]"
    by (simp add: run_defs replicate_numeral_Cons tasks_of_def slices.simps worker_items_def)
  show ?thesis
    using r1 rW s v e1 eW by (intro exI [of _ r1] exI [of _ rW]) simp
qed

end
